theory Spec2Isabelle
  imports Main "HOL-Library.Char_ord" "HOL-Library.List_Lexorder" "HOL-Library.Product_Lexorder"
    "HOL-Library.Multiset"
begin

text \<open>
  A shallow embedding of \<^verbatim>\<open>backend/sort_fuel_receipts_ocr.py\<close>: the garbling detector
  \<^verbatim>\<open>is_text_garbled\<close>, the identifier extractor \<^verbatim>\<open>extract_vehicle_vin\<close>, the digit
  normaliser \<^verbatim>\<open>extract_last_4_digits\<close> and the grouping and ordering done by
  \<^verbatim>\<open>sort_pdf_by_vehicle\<close>.

  Modelling conventions.
  \<^item> A Python \<^verbatim>\<open>str\<close> is a \<open>string\<close>; a \<open>char\<close> stands for the code point of the same
    number, so the model covers the texts whose code points are below 256. The character
    classes below are the ones Python 3 uses on that range (\<^verbatim>\<open>str.isspace\<close>,
    \<^verbatim>\<open>str.isalnum\<close>, and \<^verbatim>\<open>\d\<close>, \<^verbatim>\<open>\s\<close>, \<^verbatim>\<open>.\<close> of the module \<^verbatim>\<open>re\<close>). Beyond that
    range Python has more characters in these classes (\<^verbatim>\<open>\d\<close> matches the decimal digits of
    every script); a text holding one of them is outside the model, and no theorem below
    speaks about it.
  \<^item> The PDF reader, the OCR engine and the file system are collaborators: what they
    return is part of the input of the model.
  \<^item> \<^verbatim>\<open>sys.exit(1)\<close> is an error value, one constructor for each exit of the source.
\<close>

section \<open>Characters and strings\<close>

text \<open>
  Characters are compared by code point (the order of \<open>Char_ord\<close>), as Python compares
  them. \<open>in_range lo hi\<close> is the class \<^verbatim>\<open>[lo-hi]\<close>.
\<close>

definition in_range :: "char \<Rightarrow> char \<Rightarrow> char \<Rightarrow> bool" where
  "in_range lo hi c = (lo \<le> c \<and> c \<le> hi)"

text \<open>\<^verbatim>\<open>\d\<close> of \<^verbatim>\<open>re\<close>: below 256 the decimal digits are \<^verbatim>\<open>0\<close> to \<^verbatim>\<open>9\<close>.\<close>

definition is_digit :: "char \<Rightarrow> bool" where
  "is_digit c = in_range CHR ''0'' CHR ''9'' c"

text \<open>
  \<^verbatim>\<open>str.isspace\<close>, which is also \<^verbatim>\<open>\s\<close> of \<^verbatim>\<open>re\<close> and what \<^verbatim>\<open>str.strip()\<close> removes:
  tab to carriage return (9 to 13), the four separators 28 to 31, the space (32), NEL
  (133) and the no-break space (160).
\<close>

definition isspace :: "char \<Rightarrow> bool" where
  "isspace c = (in_range (CHR 0x09) (CHR 0x0D) c \<or> in_range (CHR 0x1C) (CHR 0x20) c
                 \<or> c = CHR 0x85 \<or> c = CHR 0xA0)"

text \<open>
  \<^verbatim>\<open>str.isalnum\<close>: the ASCII digits and letters, the Latin-1 letters (170, 181, 186,
  192 to 214, 216 to 246, 248 to 255) and the Latin-1 numeric characters (178, 179, 185,
  188 to 190).
\<close>

definition isalnum :: "char \<Rightarrow> bool" where
  "isalnum c = (in_range CHR ''0'' CHR ''9'' c \<or> in_range CHR ''A'' CHR ''Z'' c
                 \<or> in_range CHR ''a'' CHR ''z'' c
                 \<or> c \<in> set [CHR 0xAA, CHR 0xB2, CHR 0xB3, CHR 0xB5, CHR 0xB9, CHR 0xBA]
                 \<or> in_range (CHR 0xBC) (CHR 0xBE) c \<or> in_range (CHR 0xC0) (CHR 0xD6) c
                 \<or> in_range (CHR 0xD8) (CHR 0xF6) c \<or> in_range (CHR 0xF8) (CHR 0xFF) c)"

text \<open>
  \<^verbatim>\<open>str.zfill(width)\<close>: zeros are put on the left, after a leading sign if there is one.
\<close>

definition zfill :: "nat \<Rightarrow> string \<Rightarrow> string" where
  "zfill width s =
     (if width \<le> length s then s
      else case s of
             c # r \<Rightarrow> if c = CHR ''+'' \<or> c = CHR ''-''
                      then c # replicate (width - length s) CHR ''0'' @ r
                      else replicate (width - length s) CHR ''0'' @ s
           | [] \<Rightarrow> replicate width CHR ''0'')"

section \<open>The digit normaliser\<close>

text \<open>
  \<^verbatim>\<open>re.findall(r'\d+', vehicle_name)\<close>: the scan goes from left to right; at a digit the
  greedy \<^verbatim>\<open>\d+\<close> takes the whole run of digits and the scan goes on behind it; at any
  other character it moves one character on.
\<close>

function findall_digits :: "string \<Rightarrow> string list" where
  "findall_digits [] = []"
| "findall_digits (c # s) =
     (if is_digit c
      then (c # takeWhile is_digit s) # findall_digits (dropWhile is_digit s)
      else findall_digits s)"
  by pat_completeness auto
termination
  by (relation "measure length") (auto simp: le_imp_less_Suc length_dropWhile_le)

text \<open>
  \<^verbatim>\<open>extract_last_4_digits\<close>. \<^verbatim>\<open>last_digits[-4:]\<close> is the last four characters; the
  three tests on the length are exhaustive, the final \<^verbatim>\<open>return "Unknown"\<close> is reached
  only when \<^verbatim>\<open>digits\<close> is empty.
\<close>

definition extract_last_4_digits :: "string \<Rightarrow> string" where
  "extract_last_4_digits vehicle_name =
     (let digits = findall_digits vehicle_name in
      if digits \<noteq> [] then
        (let last_digits = last digits in
         if length last_digits = 4 then last_digits
         else if length last_digits > 4 then drop (length last_digits - 4) last_digits
         else if length last_digits < 4 then zfill 4 last_digits
         else ''Unknown'')
      else ''Unknown'')"

section \<open>Regular expressions\<close>

text \<open>
  The module \<^verbatim>\<open>re\<close> is a backtracking matcher. A pattern is modelled by the list of all
  the ways it matches at the start of a text, in the order in which backtracking tries
  them: each entry holds what the pattern captured and the text left behind it. The
  head of the list is the match \<^verbatim>\<open>re\<close> reports. No pattern of this program has an
  anchor, a look-around or a back reference, so a match at a position depends on the
  text from that position on only.
\<close>

type_synonym 'a matcher = "string \<Rightarrow> ('a \<times> string) list"

definition accept :: "'a \<Rightarrow> 'a matcher" where
  "accept x s = [(x, s)]"

text \<open>Sequence: every match of \<open>p\<close>, in order, followed by every match of what comes next.\<close>

definition andthen :: "'a matcher \<Rightarrow> ('a \<Rightarrow> 'b matcher) \<Rightarrow> 'b matcher" where
  "andthen p f s = concat (map (\<lambda>(a, r). f a r) (p s))"

text \<open>Sequence of two patterns, keeping the text both matched.\<close>

definition cat :: "string matcher \<Rightarrow> string matcher \<Rightarrow> string matcher" where
  "cat p q = andthen p (\<lambda>a. andthen q (\<lambda>b. accept (a @ b)))"

text \<open>Alternation \<^verbatim>\<open>p|q\<close>: the left branch first.\<close>

definition alt :: "'a matcher \<Rightarrow> 'a matcher \<Rightarrow> 'a matcher" where
  "alt p q s = p s @ q s"

text \<open>One character of a class.\<close>

definition one_of :: "(char \<Rightarrow> bool) \<Rightarrow> string matcher" where
  "one_of P s = (case s of [] \<Rightarrow> [] | c # r \<Rightarrow> if P c then [([c], r)] else [])"

text \<open>\<^verbatim>\<open>X*\<close> for a character class, greedy: the longest run first.\<close>

fun greedy_star :: "(char \<Rightarrow> bool) \<Rightarrow> string matcher" where
  "greedy_star P [] = [([], [])]"
| "greedy_star P (c # s) =
     (if P c then map (\<lambda>(a, r). (c # a, r)) (greedy_star P s) else []) @ [([], c # s)]"

text \<open>\<^verbatim>\<open>X*?\<close> for a character class, lazy: the shortest run first.\<close>

fun lazy_star :: "(char \<Rightarrow> bool) \<Rightarrow> string matcher" where
  "lazy_star P [] = [([], [])]"
| "lazy_star P (c # s) =
     ([], c # s) # (if P c then map (\<lambda>(a, r). (c # a, r)) (lazy_star P s) else [])"

definition greedy_plus :: "(char \<Rightarrow> bool) \<Rightarrow> string matcher" where
  "greedy_plus P = cat (one_of P) (greedy_star P)"

definition lazy_plus :: "(char \<Rightarrow> bool) \<Rightarrow> string matcher" where
  "lazy_plus P = cat (one_of P) (lazy_star P)"

text \<open>\<^verbatim>\<open>X{n}\<close> for a character class.\<close>

fun rep :: "nat \<Rightarrow> (char \<Rightarrow> bool) \<Rightarrow> string matcher" where
  "rep 0 P = accept []"
| "rep (Suc n) P = cat (one_of P) (rep n P)"

text \<open>
  \<^verbatim>\<open>(?:p)*\<close> for a composite pattern, greedy: one more round of \<open>p\<close> first, the empty
  match last. Every round of the one pattern this is used for takes at least one
  character, so there are at most as many rounds as the text has characters.
\<close>

fun many_upto :: "nat \<Rightarrow> string matcher \<Rightarrow> string matcher" where
  "many_upto 0 p s = [([], s)]"
| "many_upto (Suc n) p s =
     concat (map (\<lambda>(a, r). map (\<lambda>(b, r'). (a @ b, r')) (many_upto n p r)) (p s)) @ [([], s)]"

definition many :: "string matcher \<Rightarrow> string matcher" where
  "many p s = many_upto (length s) p s"

text \<open>A literal, case-sensitive.\<close>

definition lit :: "string \<Rightarrow> string matcher" where
  "lit w s = (if take (length w) s = w then [(w, drop (length w) s)] else [])"

text \<open>
  \<^verbatim>\<open>re.IGNORECASE\<close>: the engine lowers the character of the text and compares it with the
  lowered pattern. \<open>lower\<close> is the lower-case mapping on the code points below 256:
  the upper-case letters \<^verbatim>\<open>A\<close> to \<^verbatim>\<open>Z\<close>, 192 to 214 and 216 to 222 go to the letter 32
  code points up, every other character to itself.
\<close>

definition upper_case :: string where
  "upper_case = ''ABCDEFGHIJKLMNOPQRSTUVWXYZ'' @
     [CHR 0xC0, CHR 0xC1, CHR 0xC2, CHR 0xC3, CHR 0xC4, CHR 0xC5, CHR 0xC6, CHR 0xC7,
      CHR 0xC8, CHR 0xC9, CHR 0xCA, CHR 0xCB, CHR 0xCC, CHR 0xCD, CHR 0xCE, CHR 0xCF,
      CHR 0xD0, CHR 0xD1, CHR 0xD2, CHR 0xD3, CHR 0xD4, CHR 0xD5, CHR 0xD6,
      CHR 0xD8, CHR 0xD9, CHR 0xDA, CHR 0xDB, CHR 0xDC, CHR 0xDD, CHR 0xDE]"

definition lower_case :: string where
  "lower_case = ''abcdefghijklmnopqrstuvwxyz'' @
     [CHR 0xE0, CHR 0xE1, CHR 0xE2, CHR 0xE3, CHR 0xE4, CHR 0xE5, CHR 0xE6, CHR 0xE7,
      CHR 0xE8, CHR 0xE9, CHR 0xEA, CHR 0xEB, CHR 0xEC, CHR 0xED, CHR 0xEE, CHR 0xEF,
      CHR 0xF0, CHR 0xF1, CHR 0xF2, CHR 0xF3, CHR 0xF4, CHR 0xF5, CHR 0xF6,
      CHR 0xF8, CHR 0xF9, CHR 0xFA, CHR 0xFB, CHR 0xFC, CHR 0xFD, CHR 0xFE]"

definition lower :: "char \<Rightarrow> char" where
  "lower c = (case map_of (zip upper_case lower_case) c of Some l \<Rightarrow> l | None \<Rightarrow> c)"

definition lit_ic :: "string \<Rightarrow> string matcher" where
  "lit_ic w s =
     (if map lower (take (length w) s) = map lower w
      then [(take (length w) s, drop (length w) s)] else [])"

text \<open>A class under \<^verbatim>\<open>re.IGNORECASE\<close>, the class given by its lowered members.\<close>

definition ic :: "(char \<Rightarrow> bool) \<Rightarrow> char \<Rightarrow> bool" where
  "ic P c = P (lower c)"

text \<open>\<^verbatim>\<open>.\<close> (without \<^verbatim>\<open>re.DOTALL\<close>): any character but the newline.\<close>

definition dot :: "char \<Rightarrow> bool" where
  "dot c = (c \<noteq> CHR 0x0A)"

text \<open>
  \<^verbatim>\<open>re.search\<close>: the first position, from the left, at which the pattern matches, and
  there the first match in backtracking order; the position behind the last character
  is tried too.
\<close>

fun re_search :: "'a matcher \<Rightarrow> string \<Rightarrow> 'a option" where
  "re_search m [] = (case m [] of [] \<Rightarrow> None | (g, r) # rest \<Rightarrow> Some g)"
| "re_search m (c # s) =
     (case m (c # s) of [] \<Rightarrow> re_search m s | (g, r) # rest \<Rightarrow> Some g)"

section \<open>The garbling detector\<close>

text \<open>\<^verbatim>\<open>r'/\d+|/i\d+'\<close>\<close>

definition glyph_code_re :: "string matcher" where
  "glyph_code_re =
     alt (cat (lit ''/'') (greedy_plus is_digit))
         (cat (lit ''/i'') (greedy_plus is_digit))"

text \<open>
  \<^verbatim>\<open>is_text_garbled\<close>. The source compares the float \<^verbatim>\<open>readable_chars / total_chars\<close>
  with \<^verbatim>\<open>0.5\<close>. Python's division of two integers is correctly rounded, and for a text
  of fewer than \<open>2 ^ 53\<close> characters a quotient below one half is more than \<open>2 ^ -54\<close>
  below it, so the float is below \<^verbatim>\<open>0.5\<close> exactly when
  \<open>2 * readable_chars < total_chars\<close>.
\<close>

definition is_text_garbled :: "string \<Rightarrow> bool" where
  "is_text_garbled text =
     (if re_search glyph_code_re text \<noteq> None then True
      else
        let readable_chars = length (filter (\<lambda>c. isalnum c \<or> isspace c) text);
            total_chars = length text
        in if total_chars > 0 \<and> 2 * readable_chars < total_chars then True else False)"

section \<open>The identifier extractor\<close>

text \<open>\<^verbatim>\<open>text.split('\n')\<close>: the pieces between the separators; never empty.\<close>

fun split_on :: "char \<Rightarrow> string \<Rightarrow> string list" where
  "split_on d [] = [[]]"
| "split_on d (c # s) =
     (if c = d then [] # split_on d s
      else case split_on d s of [] \<Rightarrow> [[c]] | l # ls \<Rightarrow> (c # l) # ls)"

text \<open>\<^verbatim>\<open>s.strip()\<close>\<close>

definition strip :: "string \<Rightarrow> string" where
  "strip s = rev (dropWhile isspace (rev (dropWhile isspace s)))"

text \<open>\<^verbatim>\<open>w in s\<close> for strings.\<close>

fun contains :: "string \<Rightarrow> string \<Rightarrow> bool" where
  "contains w [] = (w = [])"
| "contains w (c # s) = (take (length w) (c # s) = w \<or> contains w s)"

text \<open>The first result of a loop that returns at its first success.\<close>

fun first_some :: "('a \<Rightarrow> 'b option) \<Rightarrow> 'a list \<Rightarrow> 'b option" where
  "first_some f [] = None"
| "first_some f (x # xs) = (case f x of Some r \<Rightarrow> Some r | None \<Rightarrow> first_some f xs)"

text \<open>\<^verbatim>\<open>(?:diesel|gas|gasoline)\<close> under \<^verbatim>\<open>re.IGNORECASE\<close>\<close>

definition fuel_word :: "string matcher" where
  "fuel_word = alt (lit_ic ''diesel'') (alt (lit_ic ''gas'') (lit_ic ''gasoline''))"

text \<open>\<^verbatim>\<open>r'(.+?)\s+(\d{4})\s+(?:diesel|gas|gasoline)'\<close> under \<^verbatim>\<open>re.IGNORECASE\<close>; groups 1 and 2.\<close>

definition vehicle_match_re :: "(string \<times> string) matcher" where
  "vehicle_match_re =
     andthen (lazy_plus dot) (\<lambda>g1.
     andthen (greedy_plus isspace) (\<lambda>_.
     andthen (rep 4 is_digit) (\<lambda>g2.
     andthen (cat (greedy_plus isspace) fuel_word) (\<lambda>_.
     accept (g1, g2)))))"

text \<open>
  \<^verbatim>\<open>r'([A-Z][A-Za-z\s]+?)\s+(\d{4})\s+(?:diesel|gas|gasoline)'\<close> under
  \<^verbatim>\<open>re.IGNORECASE\<close>; groups 1 and 2.
\<close>

definition vehicle_pattern :: "(string \<times> string) matcher" where
  "vehicle_pattern =
     andthen (cat (one_of (ic (in_range CHR ''a'' CHR ''z'')))
                  (lazy_plus (ic (\<lambda>c. in_range CHR ''a'' CHR ''z'' c \<or> isspace c)))) (\<lambda>g1.
     andthen (greedy_plus isspace) (\<lambda>_.
     andthen (rep 4 is_digit) (\<lambda>g2.
     andthen (cat (greedy_plus isspace) fuel_word) (\<lambda>_.
     accept (g1, g2)))))"

text \<open>
  \<^verbatim>\<open>r'(?:Stealth|Bus|Apollo|Colt|Ford|Outlaw|Renegade|Bases\s+Loaded|Slow\s+Motion|Viper|Zeus)\s+\d{4}'\<close>;
  group 0.
\<close>

definition fleet_name_re :: "string matcher" where
  "fleet_name_re =
     cat (alt (lit ''Stealth'') (alt (lit ''Bus'') (alt (lit ''Apollo'') (alt (lit ''Colt'')
         (alt (lit ''Ford'') (alt (lit ''Outlaw'') (alt (lit ''Renegade'')
         (alt (cat (lit ''Bases'') (cat (greedy_plus isspace) (lit ''Loaded'')))
         (alt (cat (lit ''Slow'') (cat (greedy_plus isspace) (lit ''Motion'')))
         (alt (lit ''Viper'') (lit ''Zeus'')))))))))))
         (cat (greedy_plus isspace) (rep 4 is_digit))"

text \<open>\<^verbatim>\<open>r'[A-Z][a-z]+(?:\s+[A-Z][a-z]+)*\s+\d{4}'\<close>; group 0.\<close>

definition capitalized_word :: "string matcher" where
  "capitalized_word =
     cat (one_of (in_range CHR ''A'' CHR ''Z'')) (greedy_plus (in_range CHR ''a'' CHR ''z''))"

definition capitalized_name_re :: "string matcher" where
  "capitalized_name_re =
     cat capitalized_word
         (cat (many (cat (greedy_plus isspace) capitalized_word))
              (cat (greedy_plus isspace) (rep 4 is_digit)))"

definition vehicle_patterns :: "string matcher list" where
  "vehicle_patterns = [fleet_name_re, capitalized_name_re]"

text \<open>
  \<^verbatim>\<open>r'venicle[lI][dD]\s+[a-z]*\s*(\d{4})'\<close> and \<^verbatim>\<open>r'vehicle[lI][dD]\s+[a-z]*\s*(\d{4})'\<close> under
  \<^verbatim>\<open>re.IGNORECASE\<close>; group 1.
\<close>

definition vehicle_id_re :: "string \<Rightarrow> string matcher" where
  "vehicle_id_re word =
     andthen (lit_ic word) (\<lambda>_.
     andthen (one_of (ic (\<lambda>c. c = CHR ''l'' \<or> c = CHR ''i''))) (\<lambda>_.
     andthen (one_of (ic (\<lambda>c. c = CHR ''d''))) (\<lambda>_.
     andthen (greedy_plus isspace) (\<lambda>_.
     andthen (greedy_star (ic (in_range CHR ''a'' CHR ''z''))) (\<lambda>_.
     andthen (greedy_star isspace) (\<lambda>_.
     rep 4 is_digit))))))"

text \<open>\<^verbatim>\<open>r'INVOICE[#H]\s+\d+\s*(\d{4})'\<close> under \<^verbatim>\<open>re.IGNORECASE\<close>; group 1.\<close>

definition invoice_re :: "string matcher" where
  "invoice_re =
     andthen (lit_ic ''INVOICE'') (\<lambda>_.
     andthen (one_of (ic (\<lambda>c. c = CHR ''#'' \<or> c = CHR ''h''))) (\<lambda>_.
     andthen (greedy_plus isspace) (\<lambda>_.
     andthen (greedy_plus is_digit) (\<lambda>_.
     andthen (greedy_star isspace) (\<lambda>_.
     rep 4 is_digit)))))"

definition bottom_vin_patterns :: "string matcher list" where
  "bottom_vin_patterns = [vehicle_id_re ''venicle'', vehicle_id_re ''vehicle'', invoice_re]"

text \<open>
  Method 1, first test of the loop body at line \<open>i\<close>: the line holds both \<^verbatim>\<open>Vehicle\<close> and
  \<^verbatim>\<open>Fuel Type\<close> (the OCR format) and the line before it matches the vehicle pattern.
\<close>

definition ocr_format_at :: "string list \<Rightarrow> nat \<Rightarrow> (string \<times> string) option" where
  "ocr_format_at lines i =
     (let stripped_line = strip (lines ! i) in
      if contains ''Vehicle'' stripped_line \<and> contains ''Fuel Type'' stripped_line then
        if i > 0 then
          (let prev_line = strip (lines ! (i - 1)) in
           case re_search vehicle_match_re prev_line of
             Some (g1, g2) \<Rightarrow> Some (g2, strip g1 @ '' '' @ g2)
           | None \<Rightarrow> None)
        else None
      else None)"

text \<open>
  Method 1, second test of the loop body at line \<open>i\<close>: the line is exactly \<^verbatim>\<open>Vehicle\<close> (the
  original format) and the line before it holds a digit.
\<close>

definition original_format_at :: "string list \<Rightarrow> nat \<Rightarrow> (string \<times> string) option" where
  "original_format_at lines i =
     (let stripped_line = strip (lines ! i) in
      if stripped_line = ''Vehicle'' then
        if i > 0 then
          (let vehicle_name = strip (lines ! (i - 1)) in
           if vehicle_name \<noteq> [] \<and> vehicle_name \<notin> set [[], '' ''] then
             (let vin_last_4 = extract_last_4_digits vehicle_name in
              if vin_last_4 \<noteq> ''Unknown'' then Some (vin_last_4, vehicle_name) else None)
           else None)
        else None
      else None)"

text \<open>The body of the loop of method 1 at line \<open>i\<close>: the two tests, in this order.\<close>

definition label_line_at :: "string list \<Rightarrow> nat \<Rightarrow> (string \<times> string) option" where
  "label_line_at lines i =
     (case ocr_format_at lines i of
        Some r \<Rightarrow> Some r
      | None \<Rightarrow> original_format_at lines i)"

text \<open>Method 3, for one pattern of \<^verbatim>\<open>vehicle_patterns\<close>.\<close>

definition named_vehicle :: "string \<Rightarrow> string matcher \<Rightarrow> (string \<times> string) option" where
  "named_vehicle page_text pattern =
     (case re_search pattern page_text of
        Some g0 \<Rightarrow>
          (let vehicle_name = strip g0;
               vin_last_4 = extract_last_4_digits vehicle_name
           in if vin_last_4 \<noteq> ''Unknown'' then Some (vin_last_4, vehicle_name) else None)
      | None \<Rightarrow> None)"

text \<open>Method 4, for one pattern of \<^verbatim>\<open>bottom_vin_patterns\<close>.\<close>

definition bottom_vin :: "string \<Rightarrow> string matcher \<Rightarrow> (string \<times> string) option" where
  "bottom_vin page_text pattern =
     (case re_search pattern page_text of
        Some vin_last_4 \<Rightarrow> Some (vin_last_4, ''Vehicle '' @ vin_last_4)
      | None \<Rightarrow> None)"

text \<open>\<^verbatim>\<open>extract_vehicle_vin\<close>: the pair \<open>(vin_last_4, vehicle_name)\<close>.\<close>

definition extract_vehicle_vin :: "string \<Rightarrow> string \<times> string" where
  "extract_vehicle_vin page_text =
     (let lines = split_on CHR 0x0A page_text in
      case first_some (label_line_at lines) [0..<length lines] of
        Some r \<Rightarrow> r
      | None \<Rightarrow>
         (case re_search vehicle_pattern page_text of
            Some (g1, g2) \<Rightarrow> (g2, strip g1 @ '' '' @ g2)
          | None \<Rightarrow>
             (case first_some (named_vehicle page_text) vehicle_patterns of
                Some r \<Rightarrow> r
              | None \<Rightarrow>
                 (case first_some (bottom_vin page_text) bottom_vin_patterns of
                    Some r \<Rightarrow> r
                  | None \<Rightarrow> (''Unknown'', ''Unknown'')))))"

section \<open>The document and its collaborators\<close>

text \<open>
  Every \<^verbatim>\<open>sys.exit(1)\<close> of \<^verbatim>\<open>sort_pdf_by_vehicle\<close>: the input file is missing, its suffix
  is not \<^verbatim>\<open>.pdf\<close>, the reader cannot open it, OCR is required but not installed, the
  output cannot be written.
\<close>

datatype exit = InputNotFound | NotAPdf | ReadError | OcrNotInstalled | WriteError

text \<open>
  What \<^verbatim>\<open>convert_from_path\<close> and \<^verbatim>\<open>pytesseract.image_to_string\<close> do for one page: one of
  them raises, no image comes back, or the text of the page.
\<close>

datatype ocr_result = OcrRaises | NoImage | OcrText string

text \<open>
  The world \<^verbatim>\<open>sort_pdf_by_vehicle\<close> runs in. \<open>reader_pages\<close> is \<open>None\<close> when \<^verbatim>\<open>PdfReader\<close>
  raises; otherwise it holds, for each page, what \<^verbatim>\<open>page.extract_text()\<close> does, at
  every call: \<open>None\<close> when it raises, the text otherwise. \<open>ocr_available\<close> is the flag \<^verbatim>\<open>OCR_AVAILABLE\<close> set
  when the module is loaded.
\<close>

record document =
  path_exists :: bool
  path_suffix :: string
  reader_pages :: "string option list option"
  ocr_available :: bool
  ocr_engine :: "nat \<Rightarrow> ocr_result"
  output_writable :: bool

text \<open>\<^verbatim>\<open>extract_text_with_ocr\<close>: never raises; the empty text stands for every failure.\<close>

definition extract_text_with_ocr :: "document \<Rightarrow> nat \<Rightarrow> string" where
  "extract_text_with_ocr doc page_num =
     (if \<not> ocr_available doc then []
      else case ocr_engine doc page_num of
             OcrRaises \<Rightarrow> []
           | NoImage \<Rightarrow> []
           | OcrText text \<Rightarrow> text)"

section \<open>Sorting the pages\<close>

text \<open>
  The test on the first page that sets \<^verbatim>\<open>needs_ocr\<close>. \<^verbatim>\<open>reader.pages[0]\<close> of a document
  without pages raises \<^verbatim>\<open>IndexError\<close> and \<^verbatim>\<open>extract_text\<close> may raise: both are caught by
  \<^verbatim>\<open>except Exception\<close>, which sets \<^verbatim>\<open>needs_ocr\<close>. \<^verbatim>\<open>sys.exit\<close> raises \<^verbatim>\<open>SystemExit\<close>, which
  that handler does not catch.
\<close>

definition check_ocr :: "document \<Rightarrow> string option list \<Rightarrow> bool \<Rightarrow> exit + bool" where
  "check_ocr doc pages use_ocr =
     (if use_ocr then Inr True
      else case pages of
             [] \<Rightarrow> Inr True
           | None # rest \<Rightarrow> Inr True
           | Some first_page_text # rest \<Rightarrow>
               if is_text_garbled first_page_text then
                 (if \<not> ocr_available doc then Inl OcrNotInstalled else Inr True)
               else Inr False)"

text \<open>
  The body of the extraction loop for one page: the pair \<open>(vin_last_4, vehicle_name)\<close>
  the page is recorded with. An exception inside the \<^verbatim>\<open>try\<close> records the page as
  \<^verbatim>\<open>("Unknown", "Unknown")\<close>. The progress lines printed by the loop are not modelled.
\<close>

definition classify_page :: "document \<Rightarrow> string option list \<Rightarrow> bool \<Rightarrow> nat \<Rightarrow> string \<times> string" where
  "classify_page doc pages needs_ocr page_num =
     (case (if needs_ocr then Some (extract_text_with_ocr doc page_num)
            else pages ! page_num) of
        Some text \<Rightarrow> extract_vehicle_vin text
      | None \<Rightarrow> (''Unknown'', ''Unknown''))"

text \<open>
  \<^verbatim>\<open>vin_pages\<close>, a \<^verbatim>\<open>defaultdict(list)\<close>: an association list in the order in which the
  keys were first seen.
\<close>

type_synonym vin_pages = "(string \<times> (nat \<times> string) list) list"

text \<open>\<^verbatim>\<open>vin_pages[k].append(v)\<close>\<close>

definition append_page :: "vin_pages \<Rightarrow> string \<Rightarrow> nat \<times> string \<Rightarrow> vin_pages" where
  "append_page d k v =
     (if k \<in> set (map fst d)
      then map (\<lambda>(k', vs). if k' = k then (k', vs @ [v]) else (k', vs)) d
      else d @ [(k, [v])])"

text \<open>\<^verbatim>\<open>vin_pages[k]\<close>\<close>

definition pages_of :: "vin_pages \<Rightarrow> string \<Rightarrow> (nat \<times> string) list" where
  "pages_of d k = (case map_of d k of Some vs \<Rightarrow> vs | None \<Rightarrow> [])"

text \<open>
  The extraction loop, for any way \<open>classify\<close> of classifying a page and any sequence
  of page numbers.
\<close>

definition collect_pages :: "(nat \<Rightarrow> string \<times> string) \<Rightarrow> nat list \<Rightarrow> vin_pages" where
  "collect_pages classify page_nums =
     foldl (\<lambda>d page_num.
              case classify page_num of
                (vin_last_4, vehicle_name) \<Rightarrow> append_page d vin_last_4 (page_num, vehicle_name))
           [] page_nums"

text \<open>The nested function \<^verbatim>\<open>sort_key\<close> of the source.\<close>

definition vin_sort_key :: "string \<Rightarrow> nat \<times> string" where
  "vin_sort_key vin = (if vin = ''Unknown'' then (1, ''9999'') else (0, vin))"

text \<open>
  The page numbers handed to \<^verbatim>\<open>writer.add_page\<close>, in order. \<^verbatim>\<open>sorted\<close> is stable, as
  \<open>sort_key\<close> is; tuples and strings are compared lexicographically, strings by code
  point.
\<close>

definition page_order :: "vin_pages \<Rightarrow> nat list" where
  "page_order d =
     (let sorted_vins = sort_key vin_sort_key (map fst d)
      in concat (map (\<lambda>vin. map fst (sort_key fst (pages_of d vin))) sorted_vins))"

text \<open>
  \<^verbatim>\<open>sort_pdf_by_vehicle\<close>: the exit taken, or the page numbers written to the output, in
  order.
\<close>

definition sort_pdf_by_vehicle :: "document \<Rightarrow> bool \<Rightarrow> exit + nat list" where
  "sort_pdf_by_vehicle doc use_ocr =
     (if \<not> path_exists doc then Inl InputNotFound
      else if map lower (path_suffix doc) \<noteq> ''.pdf'' then Inl NotAPdf
      else case reader_pages doc of
             None \<Rightarrow> Inl ReadError
           | Some pages \<Rightarrow>
               (case check_ocr doc pages use_ocr of
                  Inl e \<Rightarrow> Inl e
                | Inr needs_ocr \<Rightarrow>
                    let vin_pages = collect_pages (classify_page doc pages needs_ocr)
                                      [0..<length pages];
                        written = page_order vin_pages
                    in if output_writable doc then Inr written else Inl WriteError))"

section \<open>Properties of the digit normaliser\<close>

lemma findall_digits_Nil_iff: "findall_digits s = [] \<longleftrightarrow> (\<forall>c\<in>set s. \<not> is_digit c)"
proof (induction s rule: findall_digits.induct)
  case 1
  show ?case by simp
next
  case (2 c s)
  show ?case
  proof (cases "is_digit c")
    case True
    then show ?thesis by auto
  next
    case False
    with "2.IH"(2) show ?thesis by simp
  qed
qed

lemma findall_digits_all_digits:
  "r \<in> set (findall_digits s) \<Longrightarrow> r \<noteq> [] \<and> (\<forall>c\<in>set r. is_digit c)"
proof (induction s rule: findall_digits.induct)
  case 1
  then show ?case by simp
next
  case (2 c s)
  show ?case
  proof (cases "is_digit c")
    case False
    with "2.prems" have "r \<in> set (findall_digits s)" by simp
    with "2.IH"(2) False show ?thesis by blast
  next
    case True
    with "2.prems" consider "r = c # takeWhile is_digit s"
      | "r \<in> set (findall_digits (dropWhile is_digit s))" by auto
    then show ?thesis
    proof cases
      case 1
      with True show ?thesis by (auto dest: set_takeWhileD)
    next
      case 2
      with "2.IH"(1) True show ?thesis by blast
    qed
  qed
qed

lemma findall_digits_last:
  "findall_digits s \<noteq> [] \<Longrightarrow>
   \<exists>pre post. s = pre @ last (findall_digits s) @ post
     \<and> (\<forall>c\<in>set post. \<not> is_digit c) \<and> (pre = [] \<or> \<not> is_digit (last pre))"
proof (induction s rule: findall_digits.induct)
  case 1
  then show ?case by simp
next
  case (2 c s)
  show ?case
  proof (cases "is_digit c")
    case False
    then have eq: "findall_digits (c # s) = findall_digits s" by simp
    with "2.prems" have "findall_digits s \<noteq> []" by simp
    from "2.IH"(2)[OF False this] obtain pre post where
      d: "s = pre @ last (findall_digits s) @ post" "\<forall>c\<in>set post. \<not> is_digit c"
         "pre = [] \<or> \<not> is_digit (last pre)"
      by blast
    define r where "r = last (findall_digits s)"
    from d(1) have "s = pre @ r @ post" by (simp only: r_def)
    then have "c # s = (c # pre) @ r @ post" by simp
    moreover from d(3) False have "c # pre = [] \<or> \<not> is_digit (last (c # pre))"
      by auto
    moreover have "last (findall_digits (c # s)) = r" by (simp only: eq r_def)
    ultimately show ?thesis using d(2) by blast
  next
    case True
    define run where "run = c # takeWhile is_digit s"
    define rest where "rest = dropWhile is_digit s"
    have split: "c # s = run @ rest" by (simp add: run_def rest_def)
    have eq: "findall_digits (c # s) = run # findall_digits rest"
      using True by (simp add: run_def rest_def)
    have rest_hd: "rest \<noteq> [] \<Longrightarrow> \<not> is_digit (hd rest)"
      unfolding rest_def by (rule hd_dropWhile)
    show ?thesis
    proof (cases "findall_digits rest = []")
      case True
      then have "\<forall>c\<in>set rest. \<not> is_digit c" by (simp add: findall_digits_Nil_iff)
      moreover have "c # s = [] @ run @ rest" using split by simp
      moreover have "last (findall_digits (c # s)) = run" using eq True by simp
      ultimately show ?thesis by blast
    next
      case False
      from "2.IH"(1)[OF True False[unfolded rest_def]] obtain pre post where
        d: "rest = pre @ last (findall_digits rest) @ post" "\<forall>c\<in>set post. \<not> is_digit c"
           "pre = [] \<or> \<not> is_digit (last pre)"
        unfolding rest_def by blast
      define r where "r = last (findall_digits rest)"
      have "r \<in> set (findall_digits rest)" using False by (simp add: r_def)
      then have nonempty: "r \<noteq> []" and digits: "\<forall>c\<in>set r. is_digit c"
        using findall_digits_all_digits by blast+
      have rest_eq: "rest = pre @ r @ post" using d(1) by (simp only: r_def)
      have "pre \<noteq> []"
      proof
        assume "pre = []"
        with rest_eq nonempty have "rest \<noteq> []" "hd rest = hd r" by simp_all
        with nonempty digits rest_hd show False by simp
      qed
      with d(3) have "\<not> is_digit (last (run @ pre))" by simp
      moreover have "c # s = (run @ pre) @ r @ post"
        using split rest_eq by simp
      moreover have "last (findall_digits (c # s)) = r" using eq False by (simp add: r_def)
      ultimately show ?thesis using d(2) by blast
    qed
  qed
qed

lemma findall_digits_run:
  assumes "d \<noteq> []" "\<forall>c\<in>set d. is_digit c"
  shows "findall_digits d = [d]"
proof (cases d)
  case Nil
  with assms(1) show ?thesis by simp
next
  case (Cons c s)
  with assms(2) have c: "is_digit c" and "\<forall>x\<in>set s. is_digit x" by simp_all
  then have t: "takeWhile is_digit s = s" and dr: "dropWhile is_digit s = []" by simp_all
  have "findall_digits (c # s) =
          (c # takeWhile is_digit s) # findall_digits (dropWhile is_digit s)"
    using c by simp
  also have "\<dots> = [c # s]" unfolding t dr by simp
  finally show ?thesis using Cons by simp
qed

lemma zfill_digits:
  assumes "r \<noteq> []" "\<forall>c\<in>set r. is_digit c"
  shows "zfill w r = replicate (w - length r) CHR ''0'' @ r"
proof -
  from assms obtain c s where r: "r = c # s" and "is_digit c"
    by (cases r) auto
  then have "c \<noteq> CHR ''+''" "c \<noteq> CHR ''-''"
    by (auto simp: is_digit_def in_range_def)
  with r show ?thesis by (simp add: zfill_def)
qed

lemma normalize_run:
  assumes "r \<noteq> []" "\<forall>c\<in>set r. is_digit c"
  shows "length (if length r = 4 then r
                 else if length r > 4 then drop (length r - 4) r
                 else replicate (4 - length r) CHR ''0'' @ r) = 4"
    and "\<forall>c\<in>set (if length r = 4 then r
                 else if length r > 4 then drop (length r - 4) r
                 else replicate (4 - length r) CHR ''0'' @ r). is_digit c"
proof -
  have zero: "is_digit CHR ''0''" by (simp add: is_digit_def in_range_def)
  show "length (if length r = 4 then r
                 else if length r > 4 then drop (length r - 4) r
                 else replicate (4 - length r) CHR ''0'' @ r) = 4"
    by auto
  show "\<forall>c\<in>set (if length r = 4 then r
                 else if length r > 4 then drop (length r - 4) r
                 else replicate (4 - length r) CHR ''0'' @ r). is_digit c"
    using assms(2) zero by (auto dest: in_set_dropD)
qed

lemma extract_last_4_digits_run:
  assumes "findall_digits s \<noteq> []"
  shows "extract_last_4_digits s =
           (let r = last (findall_digits s) in
            if length r = 4 then r
            else if length r > 4 then drop (length r - 4) r
            else replicate (4 - length r) CHR ''0'' @ r)"
proof -
  define r where "r = last (findall_digits s)"
  have "r \<in> set (findall_digits s)" using assms by (simp add: r_def)
  then have "r \<noteq> []" "\<forall>c\<in>set r. is_digit c"
    using findall_digits_all_digits by blast+
  then have "zfill 4 r = replicate (4 - length r) CHR ''0'' @ r"
    by (rule zfill_digits)
  then show ?thesis
    using assms by (auto simp: extract_last_4_digits_def Let_def r_def)
qed

lemma extract_last_4_digits_shape:
  assumes "findall_digits s \<noteq> []"
  shows "length (extract_last_4_digits s) = 4"
    and "\<forall>c\<in>set (extract_last_4_digits s). is_digit c"
proof -
  define r where "r = last (findall_digits s)"
  have "r \<in> set (findall_digits s)" using assms by (simp add: r_def)
  then have r: "r \<noteq> []" "\<forall>c\<in>set r. is_digit c"
    using findall_digits_all_digits by blast+
  have e: "extract_last_4_digits s =
           (if length r = 4 then r
            else if length r > 4 then drop (length r - 4) r
            else replicate (4 - length r) CHR ''0'' @ r)"
    using extract_last_4_digits_run[OF assms] by (simp only: Let_def r_def)
  show "length (extract_last_4_digits s) = 4"
    unfolding e by (rule normalize_run(1)[OF r])
  show "\<forall>c\<in>set (extract_last_4_digits s). is_digit c"
    unfolding e by (rule normalize_run(2)[OF r])
qed

lemma extract_last_4_digits_Unknown_iff:
  "extract_last_4_digits s = ''Unknown'' \<longleftrightarrow> findall_digits s = []"
proof
  assume u: "extract_last_4_digits s = ''Unknown''"
  show "findall_digits s = []"
  proof (rule ccontr)
    assume "findall_digits s \<noteq> []"
    then have "length (extract_last_4_digits s) = 4"
      by (rule extract_last_4_digits_shape(1))
    with u show False by simp
  qed
next
  assume "findall_digits s = []"
  then show "extract_last_4_digits s = ''Unknown''"
    by (simp add: extract_last_4_digits_def)
qed

text \<open>
  Claim C4. For every input string, \<open>extract_last_4_digits\<close> (the spec's
  \<open>normalize_last4\<close>) works on the last maximal digit run of the string: the string
  splits as \<open>pre @ run @ post\<close> where \<open>run\<close> is a non-empty run of digits, \<open>post\<close>
  holds no digit and \<open>pre\<close> does not end in a digit; the result is \<open>run\<close> itself when
  it has 4 characters, its last 4 characters when it is longer, and \<open>run\<close> left-padded
  with \<open>0\<close> to 4 characters when it is shorter. A string without any digit gives
  \<open>Unknown\<close>. The four examples of the specification are evaluated as well.
\<close>
theorem extract_last_4_digits_last_run:
  "((\<forall>c\<in>set s. \<not> is_digit c) \<longrightarrow> extract_last_4_digits s = ''Unknown'')
   \<and> ((\<exists>c\<in>set s. is_digit c) \<longrightarrow>
        (\<exists>pre run post. s = pre @ run @ post \<and> run \<noteq> [] \<and> (\<forall>c\<in>set run. is_digit c)
            \<and> (\<forall>c\<in>set post. \<not> is_digit c) \<and> (pre = [] \<or> \<not> is_digit (last pre))
            \<and> extract_last_4_digits s =
                (if length run = 4 then run
                 else if length run > 4 then drop (length run - 4) run
                 else replicate (4 - length run) CHR ''0'' @ run)))
   \<and> extract_last_4_digits ''5875'' = ''5875''
   \<and> extract_last_4_digits ''123456'' = ''3456''
   \<and> extract_last_4_digits ''42'' = ''0042''
   \<and> extract_last_4_digits ''no digits here'' = ''Unknown''"
proof (intro conjI impI)
  assume "\<forall>c\<in>set s. \<not> is_digit c"
  then have "findall_digits s = []" by (simp add: findall_digits_Nil_iff)
  then show "extract_last_4_digits s = ''Unknown''"
    by (simp add: extract_last_4_digits_def)
next
  assume "\<exists>c\<in>set s. is_digit c"
  then have ne: "findall_digits s \<noteq> []" by (simp add: findall_digits_Nil_iff)
  define run where "run = last (findall_digits s)"
  have "run \<in> set (findall_digits s)" using ne by (simp add: run_def)
  then have run: "run \<noteq> []" "\<forall>c\<in>set run. is_digit c"
    using findall_digits_all_digits by blast+
  from findall_digits_last[OF ne] obtain pre post where
    d: "s = pre @ run @ post" "\<forall>c\<in>set post. \<not> is_digit c"
       "pre = [] \<or> \<not> is_digit (last pre)"
    unfolding run_def by blast
  have "extract_last_4_digits s =
          (if length run = 4 then run
           else if length run > 4 then drop (length run - 4) run
           else replicate (4 - length run) CHR ''0'' @ run)"
    using extract_last_4_digits_run[OF ne] by (simp only: Let_def run_def)
  with run d show "\<exists>pre run post. s = pre @ run @ post \<and> run \<noteq> [] \<and> (\<forall>c\<in>set run. is_digit c)
            \<and> (\<forall>c\<in>set post. \<not> is_digit c) \<and> (pre = [] \<or> \<not> is_digit (last pre))
            \<and> extract_last_4_digits s =
                (if length run = 4 then run
                 else if length run > 4 then drop (length run - 4) run
                 else replicate (4 - length run) CHR ''0'' @ run)"
    by blast
next
  show "extract_last_4_digits ''5875'' = ''5875''" by code_simp
next
  show "extract_last_4_digits ''123456'' = ''3456''" by code_simp
next
  show "extract_last_4_digits ''42'' = ''0042''" by code_simp
next
  show "extract_last_4_digits ''no digits here'' = ''Unknown''" by code_simp
qed

theorem extract_last_4_digits_last_run_witness:
  "\<not> (\<exists>c\<in>set ''n/a''. is_digit c) \<and> extract_last_4_digits ''n/a'' = ''Unknown''
   \<and> (\<exists>c\<in>set ''Bus 12 x7y''. is_digit c)
   \<and> (\<exists>pre run post. ''Bus 12 x7y'' = pre @ run @ post \<and> run \<noteq> [] \<and> (\<forall>c\<in>set run. is_digit c)
            \<and> (\<forall>c\<in>set post. \<not> is_digit c) \<and> (pre = [] \<or> \<not> is_digit (last pre))
            \<and> extract_last_4_digits ''Bus 12 x7y'' =
                (if length run = 4 then run
                 else if length run > 4 then drop (length run - 4) run
                 else replicate (4 - length run) CHR ''0'' @ run))"
proof -
  have a: "\<forall>c\<in>set ''n/a''. \<not> is_digit c" by (simp add: is_digit_def in_range_def)
  have b: "\<exists>c\<in>set ''Bus 12 x7y''. is_digit c" by (simp add: is_digit_def in_range_def)
  from a b extract_last_4_digits_last_run[of "''n/a''"]
    extract_last_4_digits_last_run[of "''Bus 12 x7y''"]
  show ?thesis by blast
qed

text \<open>
  Claim C9. The normaliser is idempotent on digit-bearing inputs: when \<open>x\<close> holds at
  least one digit, normalising the normalised key gives the same key again.
\<close>
theorem extract_last_4_digits_idempotent:
  "\<exists>c\<in>set x. is_digit c \<Longrightarrow>
   extract_last_4_digits (extract_last_4_digits x) = extract_last_4_digits x"
proof -
  assume "\<exists>c\<in>set x. is_digit c"
  then have ne: "findall_digits x \<noteq> []" by (simp add: findall_digits_Nil_iff)
  define k where "k = extract_last_4_digits x"
  have len: "length k = 4" and dig: "\<forall>c\<in>set k. is_digit c"
    unfolding k_def using extract_last_4_digits_shape[OF ne] by blast+
  from len have "k \<noteq> []" by auto
  then have "findall_digits k = [k]" using dig by (rule findall_digits_run)
  with len have "extract_last_4_digits k = k"
    by (simp add: extract_last_4_digits_def)
  then show ?thesis by (simp only: k_def)
qed

theorem extract_last_4_digits_idempotent_witness:
  "(\<exists>c\<in>set ''Apollo 123456''. is_digit c)
   \<and> extract_last_4_digits ''Apollo 123456'' = ''3456''
   \<and> extract_last_4_digits (extract_last_4_digits ''Apollo 123456'') = ''3456''"
proof -
  have a: "\<exists>c\<in>set ''Apollo 123456''. is_digit c" by (simp add: is_digit_def in_range_def)
  have b: "extract_last_4_digits ''Apollo 123456'' = ''3456''" by code_simp
  from extract_last_4_digits_idempotent[OF a] a b show ?thesis by simp
qed

section \<open>Properties of the matcher\<close>

lemma in_accept: "x \<in> set (accept y s) \<longleftrightarrow> x = (y, s)"
  by (simp add: accept_def)

lemma in_andthen:
  "x \<in> set (andthen p f s) \<longleftrightarrow> (\<exists>a r. (a, r) \<in> set (p s) \<and> x \<in> set (f a r))"
  by (auto simp: andthen_def)

lemma in_cat:
  "(x, r) \<in> set (cat p q s) \<longleftrightarrow>
     (\<exists>a r1 b. (a, r1) \<in> set (p s) \<and> (b, r) \<in> set (q r1) \<and> x = a @ b)"
  by (auto simp: cat_def in_andthen in_accept)

lemma in_alt: "x \<in> set (alt p q s) \<longleftrightarrow> x \<in> set (p s) \<or> x \<in> set (q s)"
  by (simp add: alt_def)

lemma in_one_of: "(a, r) \<in> set (one_of P s) \<longleftrightarrow> (\<exists>c. s = c # r \<and> P c \<and> a = [c])"
  by (cases s) (auto simp: one_of_def)

lemma in_lit: "(a, r) \<in> set (lit w s) \<longleftrightarrow> a = w \<and> s = w @ r"
proof -
  have "take (length w) s = w \<and> r = drop (length w) s \<longleftrightarrow> s = w @ r"
    by (metis append_eq_conv_conj)
  then show ?thesis by (auto simp: lit_def)
qed

lemma in_rep: "(g, r) \<in> set (rep n P s) \<Longrightarrow> length g = n \<and> (\<forall>c\<in>set g. P c)"
proof (induction n arbitrary: g s)
  case 0
  then show ?case by (simp add: in_accept)
next
  case (Suc n)
  from Suc.prems obtain a r1 b where
    "(a, r1) \<in> set (one_of P s)" "(b, r) \<in> set (rep n P r1)" "g = a @ b"
    by (auto simp: in_cat)
  with Suc.IH[of b r1] show ?case by (auto simp: in_one_of)
qed

lemma re_search_Some: "re_search m s = Some g \<Longrightarrow> \<exists>suf r. (g, r) \<in> set (m suf)"
proof (induction s)
  case Nil
  then obtain r rest where "m [] = (g, r) # rest" by (auto split: list.splits)
  then have "(g, r) \<in> set (m [])" by simp
  then show ?case by blast
next
  case (Cons c s)
  show ?case
  proof (cases "m (c # s)")
    case Nil
    with Cons show ?thesis by simp
  next
    case (Cons x xs)
    with Cons.prems have "(g, snd x) \<in> set (m (c # s))" by (cases x) simp
    then show ?thesis by blast
  qed
qed

lemma re_search_None_iff:
  "re_search m s = None \<longleftrightarrow> (\<forall>pre suf. s = pre @ suf \<longrightarrow> m suf = [])"
proof (induction s)
  case Nil
  show ?case by (auto split: list.splits)
next
  case (Cons c s)
  show ?case
  proof (cases "m (c # s)")
    case Nil
    have "(\<forall>pre suf. c # s = pre @ suf \<longrightarrow> m suf = []) \<longleftrightarrow>
          (\<forall>pre suf. s = pre @ suf \<longrightarrow> m suf = [])"
    proof
      assume a: "\<forall>pre suf. c # s = pre @ suf \<longrightarrow> m suf = []"
      show "\<forall>pre suf. s = pre @ suf \<longrightarrow> m suf = []"
      proof (intro allI impI)
        fix pre suf assume "s = pre @ suf"
        then have "c # s = (c # pre) @ suf" by simp
        with a show "m suf = []" by blast
      qed
    next
      assume a: "\<forall>pre suf. s = pre @ suf \<longrightarrow> m suf = []"
      show "\<forall>pre suf. c # s = pre @ suf \<longrightarrow> m suf = []"
      proof (intro allI impI)
        fix pre suf assume e: "c # s = pre @ suf"
        show "m suf = []"
        proof (cases pre)
          case Nil
          with e \<open>m (c # s) = []\<close> show ?thesis by simp
        next
          case (Cons p ps)
          with e have "s = ps @ suf" by simp
          with a show ?thesis by blast
        qed
      qed
    qed
    with Nil Cons.IH show ?thesis by simp
  next
    case (Cons x xs)
    then have "re_search m (c # s) \<noteq> None" by (cases x) simp
    moreover have "c # s = [] @ (c # s)" by simp
    then have "\<not> (\<forall>pre suf. c # s = pre @ suf \<longrightarrow> m suf = [])"
      using Cons by (metis list.distinct(1))
    ultimately show ?thesis by blast
  qed
qed

lemma greedy_star_nonempty: "greedy_star P s \<noteq> []"
  by (cases s) simp_all

lemma greedy_plus_Nil_iff: "greedy_plus P s = [] \<longleftrightarrow> (\<forall>c r. s = c # r \<longrightarrow> \<not> P c)"
proof (cases s)
  case Nil
  then show ?thesis by (simp add: greedy_plus_def cat_def andthen_def one_of_def)
next
  case (Cons c r)
  then show ?thesis
    using greedy_star_nonempty[of P r]
    by (cases "greedy_star P r")
       (auto simp: greedy_plus_def cat_def andthen_def one_of_def accept_def)
qed

lemma no_pairs: "(\<forall>a b. (a, b) \<notin> set xs) \<longleftrightarrow> xs = []"
  by (cases xs) auto

lemma andthen_Nil_iff: "andthen p f s = [] \<longleftrightarrow> (\<forall>x\<in>set (p s). f (fst x) (snd x) = [])"
  by (auto simp: andthen_def split: prod.splits)

lemma cat_Nil_iff: "cat p q s = [] \<longleftrightarrow> (\<forall>x\<in>set (p s). q (snd x) = [])"
proof -
  have "\<And>r. andthen q (\<lambda>b. accept (a @ b)) r = [] \<longleftrightarrow> q r = []" for a :: string
    by (simp add: andthen_Nil_iff accept_def no_pairs)
  then show ?thesis by (simp add: cat_def andthen_Nil_iff)
qed

lemma lit_cat_Nil_iff:
  "cat (lit w) q s = [] \<longleftrightarrow> (\<forall>r. s = w @ r \<longrightarrow> q r = [])"
proof -
  have "cat (lit w) q s = [] \<longleftrightarrow> (\<forall>a r. (a, r) \<in> set (lit w s) \<longrightarrow> q r = [])"
    by (auto simp: cat_Nil_iff)
  then show ?thesis by (simp add: in_lit)
qed

lemma glyph_code_re_Nil_iff:
  "glyph_code_re s = [] \<longleftrightarrow>
     \<not> (\<exists>c r. is_digit c \<and> (s = ''/'' @ c # r \<or> s = ''/i'' @ c # r))"
  unfolding glyph_code_re_def alt_def append_is_Nil_conv lit_cat_Nil_iff greedy_plus_Nil_iff
  by blast

lemma digit_run_iff:
  "(\<exists>ds post. ds \<noteq> [] \<and> (\<forall>c\<in>set ds. is_digit c) \<and> s = w @ ds @ post) \<longleftrightarrow>
   (\<exists>c r. is_digit c \<and> s = w @ c # r)"
proof
  assume "\<exists>ds post. ds \<noteq> [] \<and> (\<forall>c\<in>set ds. is_digit c) \<and> s = w @ ds @ post"
  then obtain ds post where d: "ds \<noteq> []" "\<forall>c\<in>set ds. is_digit c" "s = w @ ds @ post"
    by blast
  then obtain c ds' where "ds = c # ds'" by (cases ds) auto
  with d have "is_digit c \<and> s = w @ c # (ds' @ post)" by simp
  then show "\<exists>c r. is_digit c \<and> s = w @ c # r" by blast
next
  assume "\<exists>c r. is_digit c \<and> s = w @ c # r"
  then obtain c r where "is_digit c" "s = w @ c # r" by blast
  then have "[c] \<noteq> [] \<and> (\<forall>x\<in>set [c]. is_digit x) \<and> s = w @ [c] @ r" by simp
  then show "\<exists>ds post. ds \<noteq> [] \<and> (\<forall>c\<in>set ds. is_digit c) \<and> s = w @ ds @ post"
    by blast
qed

text \<open>
  The bound on the rounds of \<open>many\<close> is never reached: when every round of \<open>p\<close> takes at
  least one character, a larger bound gives the same matches.
\<close>

lemma many_upto_Suc:
  assumes "\<And>s a r. (a, r) \<in> set (p s) \<Longrightarrow> length r < length s"
  shows "length s \<le> n \<Longrightarrow> many_upto (Suc n) p s = many_upto n p s"
proof (induction n arbitrary: s)
  case 0
  then have "p s = []" using assms[of _ _ s] by (cases "p s") auto
  then show ?case by simp
next
  case (Suc n)
  have "map (\<lambda>(a, r). map (\<lambda>(b, r'). (a @ b, r')) (many_upto (Suc n) p r)) (p s) =
        map (\<lambda>(a, r). map (\<lambda>(b, r'). (a @ b, r')) (many_upto n p r)) (p s)"
  proof (rule map_cong[OF refl])
    fix x assume x: "x \<in> set (p s)"
    obtain a r where ar: "x = (a, r)" by (cases x)
    with x assms have "length r < length s" by blast
    with Suc.prems have "length r \<le> n" by simp
    then have eq: "many_upto (Suc n) p r = many_upto n p r" by (rule Suc.IH)
    show "(case x of (a, r) \<Rightarrow> map (\<lambda>(b, r'). (a @ b, r')) (many_upto (Suc n) p r)) =
          (case x of (a, r) \<Rightarrow> map (\<lambda>(b, r'). (a @ b, r')) (many_upto n p r))"
      unfolding ar prod.case eq by (rule refl)
  qed
  then show ?case by (simp only: many_upto.simps)
qed

lemma many_upto_enough:
  assumes "\<And>s a r. (a, r) \<in> set (p s) \<Longrightarrow> length r < length s"
  shows "many_upto (length s + k) p s = many p s"
proof (induction k)
  case 0
  show ?case by (simp add: many_def)
next
  case (Suc k)
  have "length s \<le> length s + k" by simp
  with assms have "many_upto (Suc (length s + k)) p s = many_upto (length s + k) p s"
    by (rule many_upto_Suc)
  with Suc show ?case by (simp only: add_Suc_right)
qed

lemma greedy_star_split: "(a, r) \<in> set (greedy_star P s) \<Longrightarrow> s = a @ r"
  by (induction s arbitrary: a) (auto split: if_splits)

lemma greedy_plus_split: "(a, r) \<in> set (greedy_plus P s) \<Longrightarrow> s = a @ r \<and> a \<noteq> []"
  by (auto simp: greedy_plus_def in_cat in_one_of dest: greedy_star_split)

lemma capitalized_word_split: "(a, r) \<in> set (capitalized_word s) \<Longrightarrow> s = a @ r"
  by (auto simp: capitalized_word_def in_cat in_one_of dest: greedy_plus_split)

lemma capitalized_name_round:
  "(a, r) \<in> set (cat (greedy_plus isspace) capitalized_word s) \<Longrightarrow> length r < length s"
proof -
  assume "(a, r) \<in> set (cat (greedy_plus isspace) capitalized_word s)"
  then obtain a1 r1 a2 where "(a1, r1) \<in> set (greedy_plus isspace s)"
    "(a2, r) \<in> set (capitalized_word r1)"
    by (auto simp: in_cat)
  then have "s = a1 @ r1" "a1 \<noteq> []" "r1 = a2 @ r"
    using greedy_plus_split capitalized_word_split by blast+
  then show ?thesis by (cases a1) auto
qed

lemma many_capitalized_words:
  "many_upto (length s + k) (cat (greedy_plus isspace) capitalized_word) s =
     many (cat (greedy_plus isspace) capitalized_word) s"
  using capitalized_name_round by (rule many_upto_enough)

section \<open>The garbling detector: claim C8\<close>

text \<open>
  Claim C8. \<open>is_text_garbled\<close> is true exactly when the text holds a slash followed by
  one or more digits, or a slash followed by the letter \<open>i\<close> and one or more digits, or
  when fewer than half of its characters are alphanumeric or white space (twice the
  number of such characters is below the length, which an empty text never satisfies).
  The empty text is not garbled; \<open>/0/1/2/3 garbage\<close> is garbled; the three-line text
  \<open>Vehicle\<close>, \<open>Stealth 6509\<close>, \<open>Fuel Type Diesel\<close> is not.
\<close>

theorem is_text_garbled_iff:
  "(is_text_garbled text \<longleftrightarrow>
      (\<exists>pre ds post. ds \<noteq> [] \<and> (\<forall>c\<in>set ds. is_digit c) \<and> text = pre @ ''/'' @ ds @ post)
      \<or> (\<exists>pre ds post. ds \<noteq> [] \<and> (\<forall>c\<in>set ds. is_digit c) \<and> text = pre @ ''/i'' @ ds @ post)
      \<or> 2 * length (filter (\<lambda>c. isalnum c \<or> isspace c) text) < length text)
   \<and> \<not> is_text_garbled []
   \<and> is_text_garbled ''/0/1/2/3 garbage''
   \<and> \<not> is_text_garbled ''Vehicle\<newline>Stealth 6509\<newline>Fuel Type Diesel''"
proof (intro conjI)
  have "re_search glyph_code_re text \<noteq> None \<longleftrightarrow>
          (\<exists>pre suf. text = pre @ suf \<and>
             (\<exists>c r. is_digit c \<and> (suf = ''/'' @ c # r \<or> suf = ''/i'' @ c # r)))"
    unfolding re_search_None_iff glyph_code_re_Nil_iff by blast
  also have "\<dots> \<longleftrightarrow>
          (\<exists>pre. (\<exists>c r. is_digit c \<and> text = pre @ ''/'' @ c # r)
               \<or> (\<exists>c r. is_digit c \<and> text = pre @ ''/i'' @ c # r))"
    by auto
  also have "\<dots> \<longleftrightarrow>
          (\<exists>pre. (\<exists>ds post. ds \<noteq> [] \<and> (\<forall>c\<in>set ds. is_digit c) \<and> text = (pre @ ''/'') @ ds @ post)
               \<or> (\<exists>ds post. ds \<noteq> [] \<and> (\<forall>c\<in>set ds. is_digit c) \<and> text = (pre @ ''/i'') @ ds @ post))"
    unfolding digit_run_iff by (simp only: append_assoc)
  finally have search:
    "re_search glyph_code_re text \<noteq> None \<longleftrightarrow>
       (\<exists>pre ds post. ds \<noteq> [] \<and> (\<forall>c\<in>set ds. is_digit c) \<and> text = pre @ ''/'' @ ds @ post)
       \<or> (\<exists>pre ds post. ds \<noteq> [] \<and> (\<forall>c\<in>set ds. is_digit c) \<and> text = pre @ ''/i'' @ ds @ post)"
    by (simp only: append_assoc) blast
  have "is_text_garbled text \<longleftrightarrow>
          re_search glyph_code_re text \<noteq> None
          \<or> 2 * length (filter (\<lambda>c. isalnum c \<or> isspace c) text) < length text"
    by (auto simp: is_text_garbled_def Let_def)
  with search show "is_text_garbled text \<longleftrightarrow>
      (\<exists>pre ds post. ds \<noteq> [] \<and> (\<forall>c\<in>set ds. is_digit c) \<and> text = pre @ ''/'' @ ds @ post)
      \<or> (\<exists>pre ds post. ds \<noteq> [] \<and> (\<forall>c\<in>set ds. is_digit c) \<and> text = pre @ ''/i'' @ ds @ post)
      \<or> 2 * length (filter (\<lambda>c. isalnum c \<or> isspace c) text) < length text"
    by blast
next
  show "\<not> is_text_garbled []" by code_simp
next
  show "is_text_garbled ''/0/1/2/3 garbage''" by code_simp
next
  show "\<not> is_text_garbled ''Vehicle\<newline>Stealth 6509\<newline>Fuel Type Diesel''" by code_simp
qed

theorem is_text_garbled_iff_witness:
  "is_text_garbled ''a/i255''
   \<and> (\<exists>pre ds post. ds \<noteq> [] \<and> (\<forall>c\<in>set ds. is_digit c) \<and> ''a/i255'' = pre @ ''/i'' @ ds @ post)
   \<and> is_text_garbled ''a?!''
   \<and> \<not> (\<exists>pre ds post. ds \<noteq> [] \<and> (\<forall>c\<in>set ds. is_digit c) \<and> ''a?!'' = pre @ ''/'' @ ds @ post)"
proof -
  have a: "''a/i255'' = ''a'' @ ''/i'' @ ''255'' @ []" by simp
  have "''255'' \<noteq> [] \<and> (\<forall>c\<in>set ''255''. is_digit c)" by (simp add: is_digit_def in_range_def)
  with a have ex: "\<exists>pre ds post. ds \<noteq> [] \<and> (\<forall>c\<in>set ds. is_digit c)
      \<and> ''a/i255'' = pre @ ''/i'' @ ds @ post"
    by blast
  then have g: "is_text_garbled ''a/i255''"
    using is_text_garbled_iff[of "''a/i255''"] by blast
  have n: "\<not> (\<exists>pre ds post. ds \<noteq> [] \<and> (\<forall>c\<in>set ds. is_digit c) \<and> ''a?!'' = pre @ ''/'' @ ds @ post)"
  proof
    assume "\<exists>pre ds post. ds \<noteq> [] \<and> (\<forall>c\<in>set ds. is_digit c) \<and> ''a?!'' = pre @ ''/'' @ ds @ post"
    then obtain pre ds post where "''a?!'' = pre @ ''/'' @ ds @ post" by blast
    then have "CHR ''/'' \<in> set ''a?!''" by (metis append_Cons in_set_conv_decomp)
    then show False by simp
  qed
  have "2 * length (filter (\<lambda>c. isalnum c \<or> isspace c) ''a?!'') < length ''a?!''"
    by (simp add: isalnum_def isspace_def in_range_def)
  then have "is_text_garbled ''a?!''"
    using is_text_garbled_iff[of "''a?!''"] by blast
  with g ex n show ?thesis by blast
qed

section \<open>Properties of the identifier extractor\<close>

lemma first_some_SomeD: "first_some f xs = Some r \<Longrightarrow> \<exists>x\<in>set xs. f x = Some r"
  by (induction xs) (auto split: option.splits)

lemma first_some_None_iff: "first_some f xs = None \<longleftrightarrow> (\<forall>x\<in>set xs. f x = None)"
  by (induction xs) (auto split: option.splits)

lemma first_some_append:
  "\<forall>x\<in>set xs. f x = None \<Longrightarrow> first_some f (xs @ ys) = first_some f ys"
  by (induction xs) auto

lemma first_some_upt:
  assumes "i < n" "f i = Some r" "\<forall>j<i. f j = None"
  shows "first_some f [0..<n] = Some r"
proof -
  from assms(1) have "[0..<n] = [0..<i] @ i # [Suc i..<n]"
    by (metis less_imp_le_nat upt_add_eq_append upt_conv_Cons le0 le_add_diff_inverse)
  moreover from assms(3) have "\<forall>x\<in>set [0..<i]. f x = None" by simp
  ultimately have "first_some f [0..<n] = first_some f (i # [Suc i..<n])"
    by (simp only: first_some_append)
  with assms(2) show ?thesis by simp
qed

lemma not_Unknown_digit_end:
  assumes "g \<noteq> []" "\<forall>c\<in>set g. is_digit c"
  shows "x @ g \<noteq> ''Unknown''"
proof
  assume "x @ g = ''Unknown''"
  then have "last (x @ g) = CHR ''n''" by simp
  with assms(1) have "last g = CHR ''n''" by simp
  moreover from assms have "is_digit (last g)" by simp
  ultimately show False by (simp add: is_digit_def in_range_def)
qed

lemma four_digits_not_Unknown: "length k = 4 \<Longrightarrow> k \<noteq> ''Unknown''"
  by auto

lemma normalized_name:
  assumes "extract_last_4_digits name \<noteq> ''Unknown''"
  shows "length (extract_last_4_digits name) = 4"
    and "\<forall>c\<in>set (extract_last_4_digits name). is_digit c"
    and "name \<noteq> ''Unknown''"
proof -
  from assms have ne: "findall_digits name \<noteq> []"
    by (simp add: extract_last_4_digits_Unknown_iff)
  show "length (extract_last_4_digits name) = 4"
    by (rule extract_last_4_digits_shape(1)[OF ne])
  show "\<forall>c\<in>set (extract_last_4_digits name). is_digit c"
    by (rule extract_last_4_digits_shape(2)[OF ne])
  have "extract_last_4_digits ''Unknown'' = ''Unknown''" by code_simp
  with assms show "name \<noteq> ''Unknown''" by auto
qed

lemma vehicle_match_re_groups:
  "((g1, g2), r) \<in> set (vehicle_match_re s) \<Longrightarrow> length g2 = 4 \<and> (\<forall>c\<in>set g2. is_digit c)"
  by (auto simp: vehicle_match_re_def in_andthen in_accept dest: in_rep)

lemma vehicle_pattern_groups:
  "((g1, g2), r) \<in> set (vehicle_pattern s) \<Longrightarrow> length g2 = 4 \<and> (\<forall>c\<in>set g2. is_digit c)"
  by (auto simp: vehicle_pattern_def in_andthen in_accept dest: in_rep)

lemma vehicle_id_re_group:
  "(g, r) \<in> set (vehicle_id_re w s) \<Longrightarrow> length g = 4 \<and> (\<forall>c\<in>set g. is_digit c)"
  by (auto simp: vehicle_id_re_def in_andthen dest: in_rep)

lemma invoice_re_group:
  "(g, r) \<in> set (invoice_re s) \<Longrightarrow> length g = 4 \<and> (\<forall>c\<in>set g. is_digit c)"
  by (auto simp: invoice_re_def in_andthen dest: in_rep)

lemma group_label:
  assumes "length g2 = 4" "\<forall>c\<in>set g2. is_digit c"
  shows "x @ '' '' @ g2 \<noteq> ''Unknown''"
proof -
  from assms(1) have "g2 \<noteq> []" by auto
  then have "(x @ '' '') @ g2 \<noteq> ''Unknown''"
    using assms(2) by (rule not_Unknown_digit_end)
  then show ?thesis by simp
qed

lemma ocr_format_at_shape:
  assumes "ocr_format_at lines i = Some (k, l)"
  shows "length k = 4 \<and> (\<forall>c\<in>set k. is_digit c) \<and> l \<noteq> ''Unknown''"
proof -
  from assms obtain g1 where
    s: "re_search vehicle_match_re (strip (lines ! (i - 1))) = Some (g1, k)"
    and l: "l = strip g1 @ '' '' @ k"
    by (auto simp: ocr_format_at_def Let_def split: if_splits option.splits)
  from re_search_Some[OF s] obtain suf r where "((g1, k), r) \<in> set (vehicle_match_re suf)"
    by blast
  then have k: "length k = 4" "\<forall>c\<in>set k. is_digit c"
    using vehicle_match_re_groups by blast+
  from group_label[OF k, of "strip g1"] l k show ?thesis by simp
qed

lemma original_format_at_shape:
  assumes "original_format_at lines i = Some (k, l)"
  shows "length k = 4 \<and> (\<forall>c\<in>set k. is_digit c) \<and> l \<noteq> ''Unknown''"
proof -
  from assms have "k = extract_last_4_digits l" "extract_last_4_digits l \<noteq> ''Unknown''"
    by (auto simp: original_format_at_def Let_def split: if_splits)
  with normalized_name[of l] show ?thesis by blast
qed

lemma label_line_at_shape:
  assumes "label_line_at lines i = Some (k, l)"
  shows "length k = 4 \<and> (\<forall>c\<in>set k. is_digit c) \<and> l \<noteq> ''Unknown''"
proof (cases "ocr_format_at lines i")
  case None
  with assms have "original_format_at lines i = Some (k, l)"
    by (simp add: label_line_at_def)
  then show ?thesis by (rule original_format_at_shape)
next
  case (Some r)
  with assms have "ocr_format_at lines i = Some (k, l)"
    by (simp add: label_line_at_def)
  then show ?thesis by (rule ocr_format_at_shape)
qed

lemma named_vehicle_shape:
  assumes "named_vehicle text pattern = Some (k, l)"
  shows "length k = 4 \<and> (\<forall>c\<in>set k. is_digit c) \<and> l \<noteq> ''Unknown''"
proof -
  from assms have "k = extract_last_4_digits l" "extract_last_4_digits l \<noteq> ''Unknown''"
    by (auto simp: named_vehicle_def Let_def split: if_splits option.splits)
  with normalized_name[of l] show ?thesis by blast
qed

lemma bottom_vin_shape:
  assumes "bottom_vin text pattern = Some (k, l)" "pattern \<in> set bottom_vin_patterns"
  shows "length k = 4 \<and> (\<forall>c\<in>set k. is_digit c) \<and> l \<noteq> ''Unknown''"
proof -
  from assms(1) have s: "re_search pattern text = Some k" and l: "l = ''Vehicle '' @ k"
    by (auto simp: bottom_vin_def split: option.splits)
  from re_search_Some[OF s] obtain suf r where "(k, r) \<in> set (pattern suf)" by blast
  with assms(2) have k: "length k = 4" "\<forall>c\<in>set k. is_digit c"
    using vehicle_id_re_group invoice_re_group
    by (auto simp: bottom_vin_patterns_def)
  from k(1) have "k \<noteq> []" by auto
  then have "''Vehicle '' @ k \<noteq> ''Unknown''" using k(2) by (rule not_Unknown_digit_end)
  with k l show ?thesis by simp
qed

lemma extract_vehicle_vin_cases:
  "extract_vehicle_vin text = (''Unknown'', ''Unknown'') \<or>
   (length (fst (extract_vehicle_vin text)) = 4
    \<and> (\<forall>c\<in>set (fst (extract_vehicle_vin text)). is_digit c)
    \<and> snd (extract_vehicle_vin text) \<noteq> ''Unknown'')"
proof -
  define lines where "lines = split_on CHR 0x0A text"
  define m1 where "m1 = first_some (label_line_at lines) [0..<length lines]"
  define m2 where "m2 = re_search vehicle_pattern text"
  define m3 where "m3 = first_some (named_vehicle text) vehicle_patterns"
  define m4 where "m4 = first_some (bottom_vin text) bottom_vin_patterns"
  have e: "extract_vehicle_vin text =
     (case m1 of Some r \<Rightarrow> r
      | None \<Rightarrow> (case m2 of Some (g1, g2) \<Rightarrow> (g2, strip g1 @ '' '' @ g2)
         | None \<Rightarrow> (case m3 of Some r \<Rightarrow> r
            | None \<Rightarrow> (case m4 of Some r \<Rightarrow> r | None \<Rightarrow> (''Unknown'', ''Unknown'')))))"
    unfolding extract_vehicle_vin_def Let_def lines_def m1_def m2_def m3_def m4_def
    by (rule refl)
  show ?thesis
  proof (cases m1)
    case (Some r)
    obtain k l where r: "r = (k, l)" by (cases r)
    from Some first_some_SomeD[of "label_line_at lines" _ r]
    obtain i where "label_line_at lines i = Some (k, l)" unfolding m1_def r by blast
    from label_line_at_shape[OF this] e Some r show ?thesis by simp
  next
    case m1: None
    show ?thesis
    proof (cases m2)
      case (Some g)
      obtain g1 g2 where g: "g = (g1, g2)" by (cases g)
      from Some re_search_Some[of vehicle_pattern "text" g]
      obtain suf r where "((g1, g2), r) \<in> set (vehicle_pattern suf)" unfolding m2_def g by blast
      then have "length g2 = 4" "\<forall>c\<in>set g2. is_digit c"
        using vehicle_pattern_groups by blast+
      with group_label[of g2 "strip g1"] e m1 Some g show ?thesis by simp
    next
      case m2: None
      show ?thesis
      proof (cases m3)
        case (Some r)
        obtain k l where r: "r = (k, l)" by (cases r)
        from Some first_some_SomeD[of "named_vehicle text" _ r]
        obtain p where "named_vehicle text p = Some (k, l)" unfolding m3_def r by blast
        from named_vehicle_shape[OF this] e m1 m2 Some r show ?thesis by simp
      next
        case m3: None
        show ?thesis
        proof (cases m4)
          case (Some r)
          obtain k l where r: "r = (k, l)" by (cases r)
          from Some first_some_SomeD[of "bottom_vin text" _ r]
          obtain p where p: "bottom_vin text p = Some (k, l)" "p \<in> set bottom_vin_patterns"
            unfolding m4_def r by blast
          from bottom_vin_shape[OF p] e m1 m2 m3 Some r show ?thesis by simp
        next
          case None
          with e m1 m2 m3 show ?thesis by simp
        qed
      qed
    qed
  qed
qed

text \<open>
  The keys of \<open>extract_vehicle_vin\<close> (the invariant of claim C10). For every input
  text, the key returned is either \<open>Unknown\<close> or a string of exactly 4 digit
  characters, and the key is \<open>Unknown\<close> exactly when the label is \<open>Unknown\<close>.
  Nothing is said here on how two keys compare: the grouping compares them as strings
  (\<open>vin_sort_key\<close>).
\<close>

lemma extract_vehicle_vin_key_shape:
  "(fst (extract_vehicle_vin page_text) = ''Unknown''
    \<or> (length (fst (extract_vehicle_vin page_text)) = 4
        \<and> (\<forall>c\<in>set (fst (extract_vehicle_vin page_text)). is_digit c)))
   \<and> (fst (extract_vehicle_vin page_text) = ''Unknown''
        \<longleftrightarrow> snd (extract_vehicle_vin page_text) = ''Unknown'')"
proof -
  have shape: "length (fst (extract_vehicle_vin page_text)) = 4
      \<and> (\<forall>c\<in>set (fst (extract_vehicle_vin page_text)). is_digit c)
      \<and> snd (extract_vehicle_vin page_text) \<noteq> ''Unknown''"
    if "fst (extract_vehicle_vin page_text) \<noteq> ''Unknown''"
    using extract_vehicle_vin_cases[of page_text] that by auto
  have a: "fst (extract_vehicle_vin page_text) = ''Unknown''
    \<or> (length (fst (extract_vehicle_vin page_text)) = 4
        \<and> (\<forall>c\<in>set (fst (extract_vehicle_vin page_text)). is_digit c))"
    using shape by blast
  have b: "fst (extract_vehicle_vin page_text) = ''Unknown''
        \<longleftrightarrow> snd (extract_vehicle_vin page_text) = ''Unknown''"
  proof
    assume "fst (extract_vehicle_vin page_text) = ''Unknown''"
    then have "length (fst (extract_vehicle_vin page_text)) \<noteq> 4" by simp
    with extract_vehicle_vin_cases[of page_text]
    show "snd (extract_vehicle_vin page_text) = ''Unknown''" by auto
  next
    assume "snd (extract_vehicle_vin page_text) = ''Unknown''"
    with shape show "fst (extract_vehicle_vin page_text) = ''Unknown''"
      by blast
  qed
  from a b show ?thesis by blast
qed

section \<open>The order of the strategies: claim C5\<close>

lemma method_results:
  "extract_vehicle_vin page_text =
     (case first_some (label_line_at (split_on CHR 0x0A page_text))
             [0..<length (split_on CHR 0x0A page_text)] of
        Some r \<Rightarrow> r
      | None \<Rightarrow>
         (case re_search vehicle_pattern page_text of
            Some (g1, g2) \<Rightarrow> (g2, strip g1 @ '' '' @ g2)
          | None \<Rightarrow>
             (case first_some (named_vehicle page_text) vehicle_patterns of
                Some r \<Rightarrow> r
              | None \<Rightarrow>
                 (case first_some (bottom_vin page_text) bottom_vin_patterns of
                    Some r \<Rightarrow> r
                  | None \<Rightarrow> (''Unknown'', ''Unknown'')))))"
  unfolding extract_vehicle_vin_def Let_def by (rule refl)

lemma label_line_at_None_iff:
  "label_line_at lines j = None \<longleftrightarrow>
     ocr_format_at lines j = None \<and> original_format_at lines j = None"
  by (simp add: label_line_at_def split: option.splits)

text \<open>
  Claim C5, as the code has it. The loop of method 1 goes through the lines once and
  tries, at each line, strategy 1 (the line holds \<open>Vehicle\<close> and \<open>Fuel Type\<close>) and then
  strategy 2 (the line is \<open>Vehicle\<close>): the first line at which either of them matches
  gives the result. So strategy 1 at line \<open>i\<close> gives the result when neither strategy
  matches at an earlier line, also when strategy 2 matches at a later line or
  strategies 3 to 5 match anywhere; and strategy 2 at line \<open>i\<close> gives the result when
  strategy 1 does not match at line \<open>i\<close> and neither matches at an earlier line, also
  when strategy 1 matches at a later line. Strategies 3, 4 and 5 are tried in this
  order, and only when no line matches; without any match the result is
  \<open>(Unknown, Unknown)\<close>.
\<close>

theorem extract_vehicle_vin_priority:
  assumes "lines = split_on CHR 0x0A page_text"
  shows
  "(i < length lines \<and> ocr_format_at lines i = Some r
      \<and> (\<forall>j<i. ocr_format_at lines j = None \<and> original_format_at lines j = None)
      \<longrightarrow> extract_vehicle_vin page_text = r)
   \<and> (i < length lines \<and> ocr_format_at lines i = None \<and> original_format_at lines i = Some r
      \<and> (\<forall>j<i. ocr_format_at lines j = None \<and> original_format_at lines j = None)
      \<longrightarrow> extract_vehicle_vin page_text = r)
   \<and> ((\<forall>j<length lines. ocr_format_at lines j = None \<and> original_format_at lines j = None)
      \<and> re_search vehicle_pattern page_text = Some (g1, g2)
      \<longrightarrow> extract_vehicle_vin page_text = (g2, strip g1 @ '' '' @ g2))
   \<and> ((\<forall>j<length lines. ocr_format_at lines j = None \<and> original_format_at lines j = None)
      \<and> re_search vehicle_pattern page_text = None
      \<and> first_some (named_vehicle page_text) vehicle_patterns = Some r
      \<longrightarrow> extract_vehicle_vin page_text = r)
   \<and> ((\<forall>j<length lines. ocr_format_at lines j = None \<and> original_format_at lines j = None)
      \<and> re_search vehicle_pattern page_text = None
      \<and> first_some (named_vehicle page_text) vehicle_patterns = None
      \<and> first_some (bottom_vin page_text) bottom_vin_patterns = Some r
      \<longrightarrow> extract_vehicle_vin page_text = r)
   \<and> ((\<forall>j<length lines. ocr_format_at lines j = None \<and> original_format_at lines j = None)
      \<and> re_search vehicle_pattern page_text = None
      \<and> first_some (named_vehicle page_text) vehicle_patterns = None
      \<and> first_some (bottom_vin page_text) bottom_vin_patterns = None
      \<longrightarrow> extract_vehicle_vin page_text = (''Unknown'', ''Unknown''))"
proof -
  define m1 where "m1 = first_some (label_line_at lines) [0..<length lines]"
  have e: "extract_vehicle_vin page_text =
     (case m1 of
        Some r \<Rightarrow> r
      | None \<Rightarrow>
         (case re_search vehicle_pattern page_text of
            Some (g1, g2) \<Rightarrow> (g2, strip g1 @ '' '' @ g2)
          | None \<Rightarrow>
             (case first_some (named_vehicle page_text) vehicle_patterns of
                Some r \<Rightarrow> r
              | None \<Rightarrow>
                 (case first_some (bottom_vin page_text) bottom_vin_patterns of
                    Some r \<Rightarrow> r
                  | None \<Rightarrow> (''Unknown'', ''Unknown'')))))"
    unfolding m1_def assms by (rule method_results)
  have first: "m1 = Some r"
    if "i < length lines" "label_line_at lines i = Some r"
       "\<forall>j<i. ocr_format_at lines j = None \<and> original_format_at lines j = None"
  proof -
    from that(3) have "\<forall>j<i. label_line_at lines j = None"
      by (simp add: label_line_at_None_iff)
    with that(1,2) show ?thesis unfolding m1_def by (rule first_some_upt)
  qed
  have none: "m1 = None"
    if "\<forall>j<length lines. ocr_format_at lines j = None \<and> original_format_at lines j = None"
    unfolding m1_def first_some_None_iff using that by (simp add: label_line_at_None_iff)
  show ?thesis
  proof (intro conjI impI)
    assume a: "i < length lines \<and> ocr_format_at lines i = Some r
      \<and> (\<forall>j<i. ocr_format_at lines j = None \<and> original_format_at lines j = None)"
    then have "label_line_at lines i = Some r" by (simp add: label_line_at_def)
    with a have "m1 = Some r" by (intro first) simp_all
    with e show "extract_vehicle_vin page_text = r" by simp
  next
    assume a: "i < length lines \<and> ocr_format_at lines i = None
      \<and> original_format_at lines i = Some r
      \<and> (\<forall>j<i. ocr_format_at lines j = None \<and> original_format_at lines j = None)"
    then have "label_line_at lines i = Some r" by (simp add: label_line_at_def)
    with a have "m1 = Some r" by (intro first) simp_all
    with e show "extract_vehicle_vin page_text = r" by simp
  next
    assume "(\<forall>j<length lines. ocr_format_at lines j = None \<and> original_format_at lines j = None)
      \<and> re_search vehicle_pattern page_text = Some (g1, g2)"
    with none e show "extract_vehicle_vin page_text = (g2, strip g1 @ '' '' @ g2)" by simp
  next
    assume "(\<forall>j<length lines. ocr_format_at lines j = None \<and> original_format_at lines j = None)
      \<and> re_search vehicle_pattern page_text = None
      \<and> first_some (named_vehicle page_text) vehicle_patterns = Some r"
    with none e show "extract_vehicle_vin page_text = r" by simp
  next
    assume "(\<forall>j<length lines. ocr_format_at lines j = None \<and> original_format_at lines j = None)
      \<and> re_search vehicle_pattern page_text = None
      \<and> first_some (named_vehicle page_text) vehicle_patterns = None
      \<and> first_some (bottom_vin page_text) bottom_vin_patterns = Some r"
    with none e show "extract_vehicle_vin page_text = r" by simp
  next
    assume "(\<forall>j<length lines. ocr_format_at lines j = None \<and> original_format_at lines j = None)
      \<and> re_search vehicle_pattern page_text = None
      \<and> first_some (named_vehicle page_text) vehicle_patterns = None
      \<and> first_some (bottom_vin page_text) bottom_vin_patterns = None"
    with none e show "extract_vehicle_vin page_text = (''Unknown'', ''Unknown'')" by simp
  qed
qed

text \<open>
  The six cases at concrete pages. On the first page strategy 1 matches at line 1,
  strategy 2 at line 3 and strategy 3 on the whole text: strategy 1 gives the result. On
  the second page strategy 2 matches at line 1 and strategy 1 at line 3: strategy 2
  gives the result. The other pages have one line and no label.
\<close>

theorem extract_vehicle_vin_priority_witness:
  "original_format_at (split_on CHR 0x0A
       ''Stealth 6509 diesel\<newline>Vehicle Fuel Type\<newline>Apollo 5875\<newline>Vehicle'') 3
     = Some (''5875'', ''Apollo 5875'')
   \<and> extract_vehicle_vin
       ''Stealth 6509 diesel\<newline>Vehicle Fuel Type\<newline>Apollo 5875\<newline>Vehicle''
     = (''6509'', ''Stealth 6509'')
   \<and> extract_vehicle_vin
       ''Apollo 5875\<newline>Vehicle\<newline>Stealth 6509 diesel\<newline>Vehicle Fuel Type''
     = (''5875'', ''Apollo 5875'')
   \<and> extract_vehicle_vin ''ab 1234 gas'' = (''1234'', ''ab 1234'')
   \<and> extract_vehicle_vin ''Bus 1234'' = (''1234'', ''Bus 1234'')
   \<and> extract_vehicle_vin ''vehicleid 1234'' = (''1234'', ''Vehicle 1234'')
   \<and> extract_vehicle_vin ''n/a'' = (''Unknown'', ''Unknown'')"
proof -
  define p1 where
    "p1 = ''Stealth 6509 diesel\<newline>Vehicle Fuel Type\<newline>Apollo 5875\<newline>Vehicle''"
  have "1 < length (split_on CHR 0x0A p1)"
    "ocr_format_at (split_on CHR 0x0A p1) 1 = Some (''6509'', ''Stealth 6509'')"
    "\<forall>j<1. ocr_format_at (split_on CHR 0x0A p1) j = None
      \<and> original_format_at (split_on CHR 0x0A p1) j = None"
    unfolding p1_def by code_simp+
  with extract_vehicle_vin_priority[OF refl, of 1 p1 "(''6509'', ''Stealth 6509'')"]
  have r1: "extract_vehicle_vin p1 = (''6509'', ''Stealth 6509'')" by blast
  have l1: "original_format_at (split_on CHR 0x0A p1) 3 = Some (''5875'', ''Apollo 5875'')"
    unfolding p1_def by code_simp
  define p2 where
    "p2 = ''Apollo 5875\<newline>Vehicle\<newline>Stealth 6509 diesel\<newline>Vehicle Fuel Type''"
  have "1 < length (split_on CHR 0x0A p2)"
    "ocr_format_at (split_on CHR 0x0A p2) 1 = None"
    "original_format_at (split_on CHR 0x0A p2) 1 = Some (''5875'', ''Apollo 5875'')"
    "\<forall>j<1. ocr_format_at (split_on CHR 0x0A p2) j = None
      \<and> original_format_at (split_on CHR 0x0A p2) j = None"
    unfolding p2_def by code_simp+
  with extract_vehicle_vin_priority[OF refl, of 1 p2 "(''5875'', ''Apollo 5875'')"]
  have r2: "extract_vehicle_vin p2 = (''5875'', ''Apollo 5875'')" by blast
  have "\<forall>j<length (split_on CHR 0x0A ''ab 1234 gas'').
      ocr_format_at (split_on CHR 0x0A ''ab 1234 gas'') j = None
      \<and> original_format_at (split_on CHR 0x0A ''ab 1234 gas'') j = None"
    "re_search vehicle_pattern ''ab 1234 gas'' = Some (''ab'', ''1234'')"
    "strip ''ab'' @ '' '' @ ''1234'' = ''ab 1234''"
    by code_simp+
  with extract_vehicle_vin_priority[OF refl, of _ "''ab 1234 gas''" _ "''ab''" "''1234''"]
  have r3: "extract_vehicle_vin ''ab 1234 gas'' = (''1234'', ''ab 1234'')" by simp
  have "\<forall>j<length (split_on CHR 0x0A ''Bus 1234'').
      ocr_format_at (split_on CHR 0x0A ''Bus 1234'') j = None
      \<and> original_format_at (split_on CHR 0x0A ''Bus 1234'') j = None"
    "re_search vehicle_pattern ''Bus 1234'' = None"
    "first_some (named_vehicle ''Bus 1234'') vehicle_patterns = Some (''1234'', ''Bus 1234'')"
    by code_simp+
  with extract_vehicle_vin_priority[OF refl, of _ "''Bus 1234''" "(''1234'', ''Bus 1234'')"]
  have r4: "extract_vehicle_vin ''Bus 1234'' = (''1234'', ''Bus 1234'')" by blast
  have "\<forall>j<length (split_on CHR 0x0A ''vehicleid 1234'').
      ocr_format_at (split_on CHR 0x0A ''vehicleid 1234'') j = None
      \<and> original_format_at (split_on CHR 0x0A ''vehicleid 1234'') j = None"
    "re_search vehicle_pattern ''vehicleid 1234'' = None"
    "first_some (named_vehicle ''vehicleid 1234'') vehicle_patterns = None"
    "first_some (bottom_vin ''vehicleid 1234'') bottom_vin_patterns
       = Some (''1234'', ''Vehicle 1234'')"
    by code_simp+
  with extract_vehicle_vin_priority[OF refl, of _ "''vehicleid 1234''"
      "(''1234'', ''Vehicle 1234'')"]
  have r5: "extract_vehicle_vin ''vehicleid 1234'' = (''1234'', ''Vehicle 1234'')" by blast
  have "\<forall>j<length (split_on CHR 0x0A ''n/a'').
      ocr_format_at (split_on CHR 0x0A ''n/a'') j = None
      \<and> original_format_at (split_on CHR 0x0A ''n/a'') j = None"
    "re_search vehicle_pattern ''n/a'' = None"
    "first_some (named_vehicle ''n/a'') vehicle_patterns = None"
    "first_some (bottom_vin ''n/a'') bottom_vin_patterns = None"
    by code_simp+
  with extract_vehicle_vin_priority[OF refl, of _ "''n/a''"]
  have r6: "extract_vehicle_vin ''n/a'' = (''Unknown'', ''Unknown'')" by blast
  from l1 r1 r2 r3 r4 r5 r6 show ?thesis unfolding p1_def p2_def by blast
qed

text \<open>
  Claim C5 as stated fails: on this page strategy 1 matches at line 3 (the line
  \<open>Vehicle Fuel Type\<close> after \<open>Stealth 6509 diesel\<close>), but strategy 2 matches at line 1
  (the line \<open>Vehicle\<close> after \<open>Apollo 5875\<close>) and gives the result.
\<close>

theorem extract_vehicle_vin_priority_counterexample:
  "ocr_format_at (split_on CHR 0x0A
       ''Apollo 5875\<newline>Vehicle\<newline>Stealth 6509 diesel\<newline>Vehicle Fuel Type'') 3
     = Some (''6509'', ''Stealth 6509'')
   \<and> extract_vehicle_vin
       ''Apollo 5875\<newline>Vehicle\<newline>Stealth 6509 diesel\<newline>Vehicle Fuel Type''
     = (''5875'', ''Apollo 5875'')"
  by code_simp

section \<open>Properties of the grouping and ordering\<close>

lemma append_page_keys:
  "map fst (append_page d k v) =
     (if k \<in> set (map fst d) then map fst d else map fst d @ [k])"
proof -
  have "map fst (map (\<lambda>(k', vs). if k' = k then (k', vs @ [v]) else (k', vs)) d) = map fst d"
    by (induction d) auto
  then show ?thesis by (simp add: append_page_def)
qed

lemma append_page_key_set: "fst ` set (append_page d k v) = insert k (fst ` set d)"
proof -
  have "fst ` set (append_page d k v) = set (map fst (append_page d k v))" by simp
  also have "\<dots> = insert k (set (map fst d))" unfolding append_page_keys by auto
  finally show ?thesis by simp
qed

lemma map_of_append_value:
  "map_of (map (\<lambda>(k', vs). if k' = k then (k', vs @ [v]) else (k', vs)) d) k' =
     (if k' = k then map_option (\<lambda>vs. vs @ [v]) (map_of d k) else map_of d k')"
  by (induction d) auto

lemma pages_of_append_page:
  "pages_of (append_page d k v) k' =
     (if k' = k then pages_of d k @ [v] else pages_of d k')"
proof (cases "k \<in> set (map fst d)")
  case True
  then obtain vs where "map_of d k = Some vs"
    by (metis list.set_map map_of_eq_None_iff not_Some_eq)
  with True show ?thesis
    by (simp add: pages_of_def append_page_def map_of_append_value)
next
  case False
  then have "map_of d k = None" by (simp add: map_of_eq_None_iff)
  with False show ?thesis
    by (auto simp: pages_of_def append_page_def map_add_def split: option.splits)
qed

lemma collect_pages_foldl:
  "collect_pages c ps = foldl (\<lambda>d p. append_page d (fst (c p)) (p, snd (c p))) [] ps"
  by (simp add: collect_pages_def case_prod_beta)

lemma foldl_append_page_keys:
  "fst ` set (foldl (\<lambda>d p. append_page d (fst (c p)) (p, snd (c p))) d ps) =
     fst ` set d \<union> (\<lambda>p. fst (c p)) ` set ps"
  by (induction ps arbitrary: d) (simp_all add: append_page_key_set)

lemma foldl_append_page_distinct:
  "distinct (map fst d) \<Longrightarrow>
   distinct (map fst (foldl (\<lambda>d p. append_page d (fst (c p)) (p, snd (c p))) d ps))"
  by (induction ps arbitrary: d) (simp_all add: append_page_keys)

lemma foldl_append_page_pages_of:
  "pages_of (foldl (\<lambda>d p. append_page d (fst (c p)) (p, snd (c p))) d ps) k =
     pages_of d k @ map (\<lambda>p. (p, snd (c p))) (filter (\<lambda>p. fst (c p) = k) ps)"
  by (induction ps arbitrary: d) (simp_all add: pages_of_append_page)

lemma collect_pages_keys:
  "fst ` set (collect_pages c ps) = (\<lambda>p. fst (c p)) ` set ps"
  "distinct (map fst (collect_pages c ps))"
  by (simp_all add: collect_pages_foldl foldl_append_page_keys foldl_append_page_distinct)

lemma collect_pages_pages_of:
  "pages_of (collect_pages c ps) k =
     map (\<lambda>p. (p, snd (c p))) (filter (\<lambda>p. fst (c p) = k) ps)"
proof -
  have "pages_of [] k = []" by (simp add: pages_of_def)
  then show ?thesis by (simp add: collect_pages_foldl foldl_append_page_pages_of)
qed

text \<open>The pages written for one key: the pages of that key, in ascending order.\<close>

lemma group_mset:
  "mset (map fst (sort_key fst (pages_of (collect_pages c ps) k))) =
     mset (filter (\<lambda>p. fst (c p) = k) ps)"
proof -
  have "mset (map fst (sort_key fst (pages_of (collect_pages c ps) k))) =
          mset (map fst (pages_of (collect_pages c ps) k))"
    by simp
  also have "map fst (pages_of (collect_pages c ps) k) = filter (\<lambda>p. fst (c p) = k) ps"
    by (simp add: collect_pages_pages_of comp_def)
  finally show ?thesis .
qed

lemma group_set:
  "set (map fst (sort_key fst (pages_of (collect_pages c ps) k))) =
     {p \<in> set ps. fst (c p) = k}"
  using group_mset[of c ps k, THEN mset_eq_setD] by auto

lemma group_sorted:
  "distinct ps \<Longrightarrow> sorted_wrt (<) (map fst (sort_key fst (pages_of (collect_pages c ps) k)))"
proof -
  assume "distinct ps"
  then have "distinct (filter (\<lambda>p. fst (c p) = k) ps)" by simp
  then have "distinct (map fst (sort_key fst (pages_of (collect_pages c ps) k)))"
    using group_mset[of c ps k] by (metis mset_eq_imp_distinct_iff)
  moreover have "sorted (map fst (sort_key fst (pages_of (collect_pages c ps) k)))"
    by (rule sorted_sort_key)
  ultimately show ?thesis by (simp add: strict_sorted_iff)
qed

lemma sum_filter_keys:
  "distinct ks \<Longrightarrow>
   (\<Sum>k\<leftarrow>ks. mset (filter (\<lambda>p. f p = k) xs)) = mset (filter (\<lambda>p. f p \<in> set ks) xs)"
proof (induction ks)
  case Nil
  then show ?case by simp
next
  case (Cons k ks)
  then have "k \<notin> set ks" by simp
  then have "filter_mset (\<lambda>p. f p = k) (mset xs) + filter_mset (\<lambda>p. f p \<in> set ks) (mset xs)
      = filter_mset (\<lambda>p. f p = k \<or> f p \<in> set ks) (mset xs)"
    by (intro multiset_eqI) auto
  with Cons show ?case by simp
qed

lemma page_order_mset: "mset (page_order (collect_pages c ps)) = mset ps"
proof -
  define ks where "ks = sort_key vin_sort_key (map fst (collect_pages c ps))"
  have ks: "distinct ks" "set ks = (\<lambda>p. fst (c p)) ` set ps"
    unfolding ks_def using collect_pages_keys[of c ps] by simp_all
  have "mset (page_order (collect_pages c ps)) =
          (\<Sum>k\<leftarrow>ks. mset (map fst (sort_key fst (pages_of (collect_pages c ps) k))))"
    by (simp add: page_order_def Let_def ks_def mset_concat comp_def)
  also have "\<dots> = (\<Sum>k\<leftarrow>ks. mset (filter (\<lambda>p. fst (c p) = k) ps))"
    by (simp only: group_mset)
  also have "\<dots> = mset (filter (\<lambda>p. fst (c p) \<in> set ks) ps)"
    using ks(1) by (rule sum_filter_keys)
  also have "filter (\<lambda>p. fst (c p) \<in> set ks) ps = ps"
    using ks(2) by (simp add: filter_id_conv)
  finally show ?thesis .
qed

lemma less_pair_fst: "(a, x) < (b, y) \<Longrightarrow> a \<le> b"
  for a b :: "'a :: linorder" and x y :: "'b :: linorder"
  by (auto simp: less_prod_def)

lemma vin_sort_key_inj: "vin_sort_key a = vin_sort_key b \<Longrightarrow> a = b"
  by (auto simp: vin_sort_key_def split: if_splits)

lemma concat_groups_sorted:
  fixes g :: "string \<Rightarrow> nat list" and key :: "nat \<Rightarrow> string"
  assumes "sorted_wrt (\<lambda>a b. vin_sort_key a < vin_sort_key b) ks"
    and "\<And>k. sorted_wrt (<) (g k)"
    and "\<And>k p. p \<in> set (g k) \<Longrightarrow> key p = k"
  shows "sorted_wrt (\<lambda>p q. (vin_sort_key (key p), p) < (vin_sort_key (key q), q))
           (concat (map g ks))"
  using assms(1)
proof (induction ks)
  case Nil
  then show ?case by simp
next
  case (Cons k ks)
  have inside: "sorted_wrt (\<lambda>p q. (vin_sort_key (key p), p) < (vin_sort_key (key q), q)) (g k)"
  proof (rule sorted_wrt_mono_rel[OF _ assms(2)[of k]])
    fix p q :: nat
    assume "p \<in> set (g k)" "q \<in> set (g k)" "p < q"
    then show "(vin_sort_key (key p), p) < (vin_sort_key (key q), q)"
      using assms(3) by (simp add: less_prod_def)
  qed
  have across: "(vin_sort_key (key p), p) < (vin_sort_key (key q), q)"
    if "p \<in> set (g k)" "q \<in> set (concat (map g ks))" for p q :: nat
  proof -
    from that(2) obtain k' where k': "k' \<in> set ks" "q \<in> set (g k')" by auto
    with Cons.prems have "vin_sort_key k < vin_sort_key k'" by simp
    with that(1) k'(2) assms(3) show ?thesis by (simp add: less_prod_def)
  qed
  from Cons have "sorted_wrt (\<lambda>p q. (vin_sort_key (key p), p) < (vin_sort_key (key q), q))
                    (concat (map g ks))"
    by simp
  with inside across show ?case by (simp add: sorted_wrt_append)
qed

text \<open>
  The written order is the strictly ascending order of the pairs (sort key of the
  page's key, page number).
\<close>

lemma page_order_sorted:
  assumes "distinct ps"
  shows "sorted_wrt (\<lambda>p q. (vin_sort_key (fst (c p)), p) < (vin_sort_key (fst (c q)), q))
           (page_order (collect_pages c ps))"
proof -
  define ks where "ks = sort_key vin_sort_key (map fst (collect_pages c ps))"
  have "distinct ks" unfolding ks_def using collect_pages_keys(2)[of c ps] by simp
  then have "distinct (map vin_sort_key ks)"
    by (simp add: distinct_map inj_on_def vin_sort_key_inj)
  moreover have "sorted (map vin_sort_key ks)" unfolding ks_def by (rule sorted_sort_key)
  ultimately have "sorted_wrt (<) (map vin_sort_key ks)" by (simp add: strict_sorted_iff)
  then have ks: "sorted_wrt (\<lambda>a b. vin_sort_key a < vin_sort_key b) ks"
    by (simp add: sorted_wrt_map)
  have "sorted_wrt (\<lambda>p q. (vin_sort_key (fst (c p)), p) < (vin_sort_key (fst (c q)), q))
          (concat (map (\<lambda>k. map fst (sort_key fst (pages_of (collect_pages c ps) k))) ks))"
  proof (rule concat_groups_sorted[OF ks])
    show "sorted_wrt (<) (map fst (sort_key fst (pages_of (collect_pages c ps) k)))" for k
      using assms by (rule group_sorted)
    show "fst (c p) = k"
      if "p \<in> set (map fst (sort_key fst (pages_of (collect_pages c ps) k)))" for k p
      using that unfolding group_set by simp
  qed
  then show ?thesis by (simp add: page_order_def Let_def ks_def)
qed

lemma sort_pdf_by_vehicle_Inr:
  "sort_pdf_by_vehicle doc use_ocr = Inr out \<longleftrightarrow>
     path_exists doc \<and> map lower (path_suffix doc) = ''.pdf'' \<and> output_writable doc
     \<and> (\<exists>pages needs_ocr. reader_pages doc = Some pages
           \<and> check_ocr doc pages use_ocr = Inr needs_ocr
           \<and> out = page_order (collect_pages (classify_page doc pages needs_ocr)
                                  [0..<length pages]))"
  by (auto simp: sort_pdf_by_vehicle_def Let_def split: option.splits sum.splits)

section \<open>The written page order: claims C1, C2 and C3\<close>

text \<open>
  Claim C1. For every input document of \<open>N\<close> pages that \<open>sort_pdf_by_vehicle\<close> writes,
  the written page order is a permutation of the input pages: it holds exactly \<open>N\<close>
  page references, and every source index from \<open>0\<close> to \<open>N - 1\<close> occurs exactly once.
\<close>

theorem sort_pdf_by_vehicle_permutation:
  assumes "sort_pdf_by_vehicle doc use_ocr = Inr out" "reader_pages doc = Some pages"
  shows "mset out = mset [0..<length pages] \<and> length out = length pages
         \<and> (\<forall>i<length pages. count_list out i = 1)"
proof -
  from assms obtain needs_ocr where
    "out = page_order (collect_pages (classify_page doc pages needs_ocr) [0..<length pages])"
    by (auto simp: sort_pdf_by_vehicle_Inr)
  then have m: "mset out = mset [0..<length pages]" by (simp only: page_order_mset)
  then have l: "length out = length pages" using mset_eq_length by fastforce
  from m have d: "distinct out" by (metis distinct_upt mset_eq_imp_distinct_iff)
  from m have s: "set out = {0..<length pages}" by (metis mset_eq_setD set_upt)
  have "count_list out i = 1" if "i < length pages" for i
  proof -
    from that s have "i \<in> set out" by simp
    with d have "count (mset out) i = 1" by (simp only: distinct_count_atmost_1 if_True)
    then show ?thesis by (simp only: count_mset)
  qed
  with m l show ?thesis by blast
qed

theorem sort_pdf_by_vehicle_permutation_witness:
  "sort_pdf_by_vehicle \<lparr>path_exists = True, path_suffix = ''.pdf'',
       reader_pages = Some [Some ''Apollo 42\<newline>Vehicle'', None, Some ''Bus 7\<newline>Vehicle''],
       ocr_available = False, ocr_engine = (\<lambda>p. OcrRaises), output_writable = True\<rparr> False
     = Inr [2, 0, 1]
   \<and> length [2, 0, 1 :: nat] = 3
   \<and> count_list [2, 0, 1 :: nat] 0 = 1 \<and> count_list [2, 0, 1 :: nat] 1 = 1
   \<and> count_list [2, 0, 1 :: nat] 2 = 1"
proof -
  define pages where
    "pages = [Some ''Apollo 42\<newline>Vehicle'', None, Some ''Bus 7\<newline>Vehicle'']"
  define doc where
    "doc = \<lparr>path_exists = True, path_suffix = ''.pdf'', reader_pages = Some pages,
       ocr_available = False, ocr_engine = (\<lambda>p. OcrRaises), output_writable = True\<rparr>"
  have run: "sort_pdf_by_vehicle doc False = Inr [2, 0, 1]"
    unfolding doc_def pages_def by code_simp
  have "reader_pages doc = Some pages" by (simp add: doc_def)
  from sort_pdf_by_vehicle_permutation[OF run this]
  have "length [2, 0, 1 :: nat] = 3 \<and> (\<forall>i<3. count_list [2, 0, 1 :: nat] i = 1)"
    by (simp add: pages_def)
  then have "length [2, 0, 1 :: nat] = 3
     \<and> count_list [2, 0, 1 :: nat] 0 = 1 \<and> count_list [2, 0, 1 :: nat] 1 = 1
     \<and> count_list [2, 0, 1 :: nat] 2 = 1"
    by simp
  with run show ?thesis unfolding doc_def pages_def by blast
qed

text \<open>
  Claim C2. In the written page order the groups follow the two-tier comparator. Let
  \<open>A\<close> be the key of the page written at position \<open>i\<close> and \<open>B\<close> the key of the page
  written at position \<open>j\<close>. If neither is \<open>Unknown\<close> and \<open>A < B\<close> in the lexicographic
  order of strings, position \<open>i\<close> is before position \<open>j\<close>: every page of the group of
  \<open>A\<close> precedes every page of the group of \<open>B\<close>. If \<open>A\<close> is not \<open>Unknown\<close> and \<open>B\<close> is,
  position \<open>i\<close> is before position \<open>j\<close>: the \<open>Unknown\<close> group comes after every other
  group.
\<close>

theorem sort_pdf_by_vehicle_group_order:
  assumes "sort_pdf_by_vehicle doc use_ocr = Inr out" "reader_pages doc = Some pages"
    and "check_ocr doc pages use_ocr = Inr needs_ocr"
    and "i < length out" "j < length out"
    and "A = fst (classify_page doc pages needs_ocr (out ! i))"
    and "B = fst (classify_page doc pages needs_ocr (out ! j))"
  shows "(A \<noteq> ''Unknown'' \<and> B \<noteq> ''Unknown'' \<and> A < B \<longrightarrow> i < j)
         \<and> (A \<noteq> ''Unknown'' \<and> B = ''Unknown'' \<longrightarrow> i < j)"
proof -
  define c where "c = classify_page doc pages needs_ocr"
  from assms(1-3) have "out = page_order (collect_pages c [0..<length pages])"
    by (auto simp: sort_pdf_by_vehicle_Inr c_def)
  then have sorted: "sorted_wrt (\<lambda>p q. (vin_sort_key (fst (c p)), p) < (vin_sort_key (fst (c q)), q)) out"
    using page_order_sorted[of "[0..<length pages]" c] by simp
  have AB: "A = fst (c (out ! i))" "B = fst (c (out ! j))"
    using assms(6,7) by (simp_all add: c_def)
  have "i < j" if less: "vin_sort_key A < vin_sort_key B"
  proof (rule ccontr)
    assume "\<not> i < j"
    then consider "j = i" | "j < i" by linarith
    then show False
    proof cases
      case 1
      with AB have "A = B" by simp
      with less show False by simp
    next
      case 2
      from sorted_wrt_nth_less[OF sorted 2 assms(4)] AB
      have "(vin_sort_key B, out ! j) < (vin_sort_key A, out ! i)" by simp
      then have "vin_sort_key B \<le> vin_sort_key A" by (rule less_pair_fst)
      with less show False by simp
    qed
  qed
  moreover have "vin_sort_key A < vin_sort_key B"
    if "A \<noteq> ''Unknown''" "B \<noteq> ''Unknown''" "A < B"
    using that by (simp add: vin_sort_key_def less_prod_def)
  moreover have "vin_sort_key A < vin_sort_key B"
    if "A \<noteq> ''Unknown''" "B = ''Unknown''"
    using that by (simp add: vin_sort_key_def less_prod_def)
  ultimately show ?thesis by blast
qed

theorem sort_pdf_by_vehicle_group_order_witness:
  "sort_pdf_by_vehicle \<lparr>path_exists = True, path_suffix = ''.pdf'',
       reader_pages = Some [Some ''Apollo 42\<newline>Vehicle'', None, Some ''Bus 7\<newline>Vehicle''],
       ocr_available = False, ocr_engine = (\<lambda>p. OcrRaises), output_writable = True\<rparr> False
     = Inr [2, 0, 1]
   \<and> ''0007'' < ''0042'' \<and> ''0042'' \<noteq> ''Unknown'' \<and> (0 :: nat) < 1 \<and> (1 :: nat) < 2"
proof -
  define pages where
    "pages = [Some ''Apollo 42\<newline>Vehicle'', None, Some ''Bus 7\<newline>Vehicle'']"
  define doc where
    "doc = \<lparr>path_exists = True, path_suffix = ''.pdf'', reader_pages = Some pages,
       ocr_available = False, ocr_engine = (\<lambda>p. OcrRaises), output_writable = True\<rparr>"
  have run: "sort_pdf_by_vehicle doc False = Inr [2, 0, 1]"
    unfolding doc_def pages_def by code_simp
  have rd: "reader_pages doc = Some pages" by (simp add: doc_def)
  have ck: "check_ocr doc pages False = Inr False"
    unfolding doc_def pages_def by code_simp
  have k0: "''0007'' = fst (classify_page doc pages False ([2, 0, 1] ! 0))"
    unfolding doc_def pages_def by code_simp
  have k1: "''0042'' = fst (classify_page doc pages False ([2, 0, 1] ! 1))"
    unfolding doc_def pages_def by code_simp
  have k2: "''Unknown'' = fst (classify_page doc pages False ([2, 0, 1] ! 2))"
    unfolding doc_def pages_def by code_simp
  have lt: "''0007'' < ''0042''" by simp
  from sort_pdf_by_vehicle_group_order[OF run rd ck _ _ k0 k1] lt
  have a: "(0 :: nat) < 1" by simp
  from sort_pdf_by_vehicle_group_order[OF run rd ck _ _ k1 k2]
  have b: "(1 :: nat) < 2" by simp
  from run lt a b show ?thesis unfolding doc_def pages_def by simp
qed

text \<open>
  Claim C3. Within every vehicle group of the written order the pages are in strictly
  ascending order of their source index: of two positions \<open>i < j\<close> whose pages have the
  same key, the page at \<open>i\<close> has the smaller page number. This holds for
  \<open>sort_pdf_by_vehicle\<close>, and it holds for the grouping and ordering of any sequence of
  distinct page numbers, in whatever order they were classified and put into the
  buckets.
\<close>

theorem sort_pdf_by_vehicle_group_ascending:
  "(sort_pdf_by_vehicle doc use_ocr = Inr out \<and> reader_pages doc = Some pages
      \<and> check_ocr doc pages use_ocr = Inr needs_ocr
      \<and> i < j \<and> j < length out
      \<and> fst (classify_page doc pages needs_ocr (out ! i))
          = fst (classify_page doc pages needs_ocr (out ! j))
      \<longrightarrow> out ! i < out ! j)
   \<and> (distinct page_nums
      \<and> i < j \<and> j < length (page_order (collect_pages classify page_nums))
      \<and> fst (classify (page_order (collect_pages classify page_nums) ! i))
          = fst (classify (page_order (collect_pages classify page_nums) ! j))
      \<longrightarrow> page_order (collect_pages classify page_nums) ! i
            < page_order (collect_pages classify page_nums) ! j)"
proof -
  have general: "page_order (collect_pages c ps) ! i < page_order (collect_pages c ps) ! j"
    if "distinct ps" "i < j" "j < length (page_order (collect_pages c ps))"
       "fst (c (page_order (collect_pages c ps) ! i)) = fst (c (page_order (collect_pages c ps) ! j))"
    for c :: "nat \<Rightarrow> string \<times> string" and ps
  proof -
    from sorted_wrt_nth_less[OF page_order_sorted[OF that(1), of c] that(2,3)] that(4)
    show ?thesis by (simp add: less_prod_def)
  qed
  show ?thesis
  proof (intro conjI impI)
    assume a: "sort_pdf_by_vehicle doc use_ocr = Inr out \<and> reader_pages doc = Some pages
      \<and> check_ocr doc pages use_ocr = Inr needs_ocr
      \<and> i < j \<and> j < length out
      \<and> fst (classify_page doc pages needs_ocr (out ! i))
          = fst (classify_page doc pages needs_ocr (out ! j))"
    then have "out = page_order (collect_pages (classify_page doc pages needs_ocr)
                                   [0..<length pages])"
      by (auto simp: sort_pdf_by_vehicle_Inr)
    with a general[of "[0..<length pages]" "classify_page doc pages needs_ocr"]
    show "out ! i < out ! j" by simp
  next
    assume "distinct page_nums
      \<and> i < j \<and> j < length (page_order (collect_pages classify page_nums))
      \<and> fst (classify (page_order (collect_pages classify page_nums) ! i))
          = fst (classify (page_order (collect_pages classify page_nums) ! j))"
    with general[of page_nums classify]
    show "page_order (collect_pages classify page_nums) ! i
            < page_order (collect_pages classify page_nums) ! j"
      by simp
  qed
qed

text \<open>
  Four pages of one vehicle and one page of another; then the same two keys with the
  pages classified in the order 3, 1, 2, 0.
\<close>

theorem sort_pdf_by_vehicle_group_ascending_witness:
  "sort_pdf_by_vehicle \<lparr>path_exists = True, path_suffix = ''.pdf'',
       reader_pages = Some [Some ''Bus 7\<newline>Vehicle'', Some ''Apollo 42\<newline>Vehicle'',
                            Some ''Bus 7\<newline>Vehicle''],
       ocr_available = False, ocr_engine = (\<lambda>p. OcrRaises), output_writable = True\<rparr> False
     = Inr [0, 2, 1]
   \<and> [0, 2, 1 :: nat] ! 0 < [0, 2, 1] ! 1
   \<and> page_order (collect_pages (\<lambda>p. if p = 2 then (''0042'', ''Apollo 42'') else (''0007'', ''Bus 7''))
                   [3, 1, 2, 0]) = [0, 1, 3, 2]
   \<and> [0, 1, 3, 2 :: nat] ! 1 < [0, 1, 3, 2] ! 2"
proof -
  define pages where
    "pages = [Some ''Bus 7\<newline>Vehicle'', Some ''Apollo 42\<newline>Vehicle'', Some ''Bus 7\<newline>Vehicle'']"
  define doc where
    "doc = \<lparr>path_exists = True, path_suffix = ''.pdf'', reader_pages = Some pages,
       ocr_available = False, ocr_engine = (\<lambda>p. OcrRaises), output_writable = True\<rparr>"
  have run: "sort_pdf_by_vehicle doc False = Inr [0, 2, 1]"
    unfolding doc_def pages_def by code_simp
  have rd: "reader_pages doc = Some pages" by (simp add: doc_def)
  have ck: "check_ocr doc pages False = Inr False"
    unfolding doc_def pages_def by code_simp
  have same: "fst (classify_page doc pages False ([0, 2, 1] ! 0))
      = fst (classify_page doc pages False ([0, 2, 1] ! 1))"
    unfolding doc_def pages_def by code_simp
  from sort_pdf_by_vehicle_group_ascending[of doc False "[0, 2, 1]" pages False 0 1] run rd ck same
  have a: "[0, 2, 1 :: nat] ! 0 < [0, 2, 1] ! 1" by simp
  define c :: "nat \<Rightarrow> string \<times> string" where
    "c = (\<lambda>p. if p = 2 then (''0042'', ''Apollo 42'') else (''0007'', ''Bus 7''))"
  have po: "page_order (collect_pages c [3, 1, 2, 0]) = [0, 1, 3, 2]"
    unfolding c_def by code_simp
  have "distinct [3, 1, 2, 0 :: nat]" by simp
  moreover have "fst (c ([0, 1, 3, 2] ! 1)) = fst (c ([0, 1, 3, 2] ! 2))" by (simp add: c_def)
  ultimately have b: "[0, 1, 3, 2 :: nat] ! 1 < [0, 1, 3, 2] ! 2"
    using sort_pdf_by_vehicle_group_ascending[of _ _ _ _ _ 1 2 "[3, 1, 2, 0]" c] po
    by simp
  from run a po b show ?thesis unfolding doc_def pages_def c_def by simp
qed

section \<open>Failures: claims C6 and C7\<close>

lemma check_ocr_Inl_iff:
  "check_ocr doc pages use_ocr = Inl e \<longleftrightarrow>
     e = OcrNotInstalled \<and> \<not> use_ocr \<and> \<not> ocr_available doc
     \<and> (\<exists>first_page_text rest. pages = Some first_page_text # rest
            \<and> is_text_garbled first_page_text)"
  by (auto simp: check_ocr_def split: list.splits option.splits)

text \<open>
  Claim C6, at three documents of two pages when \<^verbatim>\<open>OCR_AVAILABLE\<close> is false. With OCR
  forced by the caller, and with a first page whose native extraction raises, OCR is
  required but \<open>sort_pdf_by_vehicle\<close> does not stop: every page is read as the empty text
  and written in the input order. Only with a garbled first page does it stop with
  \<open>OcrNotInstalled\<close>.
\<close>

theorem sort_pdf_by_vehicle_ocr_unavailable:
  "sort_pdf_by_vehicle \<lparr>path_exists = True, path_suffix = ''.pdf'',
       reader_pages = Some [Some ''Bus 7\<newline>Vehicle'', Some ''Apollo 42\<newline>Vehicle''],
       ocr_available = False, ocr_engine = (\<lambda>p. OcrRaises), output_writable = True\<rparr> True
     = Inr [0, 1]
   \<and> sort_pdf_by_vehicle \<lparr>path_exists = True, path_suffix = ''.pdf'',
       reader_pages = Some [None, Some ''Apollo 42\<newline>Vehicle''],
       ocr_available = False, ocr_engine = (\<lambda>p. OcrRaises), output_writable = True\<rparr> False
     = Inr [0, 1]
   \<and> sort_pdf_by_vehicle \<lparr>path_exists = True, path_suffix = ''.pdf'',
       reader_pages = Some [Some ''/0/1/2/3 garbage'', Some ''Apollo 42\<newline>Vehicle''],
       ocr_available = False, ocr_engine = (\<lambda>p. OcrRaises), output_writable = True\<rparr> False
     = Inl OcrNotInstalled"
  by code_simp

lemma extract_vehicle_vin_empty: "extract_vehicle_vin [] = (''Unknown'', ''Unknown'')"
  by code_simp

lemma extract_text_with_ocr_failure:
  "ocr_engine doc page_num = OcrRaises \<or> ocr_engine doc page_num = NoImage
   \<Longrightarrow> extract_text_with_ocr doc page_num = []"
  by (auto simp: extract_text_with_ocr_def)

text \<open>
  Claim C7. An error raised while the text of one page is extracted is caught where it
  occurs: the page is recorded with key \<open>Unknown\<close> and label \<open>Unknown\<close>, and the loop
  goes on. With native text the error is the one \<^verbatim>\<open>page.extract_text()\<close> raises, caught
  by the \<^verbatim>\<open>except\<close> of the loop. With OCR the error is the one the OCR engine raises
  (or the missing image), caught inside \<^verbatim>\<open>extract_text_with_ocr\<close>, which returns the
  empty text, and the empty text has no vehicle. So a document that was opened is
  written completely, every page once, whichever of its pages fail, unless OCR is
  needed for a garbled first page and is not installed or the output cannot be written.
  The three-page example of the specification (keys \<open>0042\<close>, \<open>Unknown\<close> for a page whose
  extraction raises, \<open>0007\<close>) is written in the order page 2, page 0, page 1, with
  native text, with OCR forced and with OCR chosen for a garbled first page.
\<close>

theorem page_failure_is_local:
  "(path_exists doc \<and> map lower (path_suffix doc) = ''.pdf'' \<and> reader_pages doc = Some pages
      \<and> output_writable doc
      \<and> (use_ocr \<or> ocr_available doc
          \<or> (\<forall>first_page_text rest. pages = Some first_page_text # rest
                \<longrightarrow> \<not> is_text_garbled first_page_text))
      \<longrightarrow> (\<exists>out. sort_pdf_by_vehicle doc use_ocr = Inr out
                 \<and> mset out = mset [0..<length pages]))
   \<and> (i < length pages \<and> pages ! i = None
      \<longrightarrow> classify_page doc pages False i = (''Unknown'', ''Unknown'')
          \<and> (i, ''Unknown'') \<in> set (pages_of
                (collect_pages (classify_page doc pages False) [0..<length pages]) ''Unknown''))
   \<and> (i < length pages \<and> (ocr_engine doc i = OcrRaises \<or> ocr_engine doc i = NoImage)
      \<longrightarrow> classify_page doc pages True i = (''Unknown'', ''Unknown'')
          \<and> (i, ''Unknown'') \<in> set (pages_of
                (collect_pages (classify_page doc pages True) [0..<length pages]) ''Unknown''))
   \<and> classify_page \<lparr>path_exists = True, path_suffix = ''.pdf'',
         reader_pages = Some [Some ''Apollo 42\<newline>Vehicle'', None, Some ''Bus 7\<newline>Vehicle''],
         ocr_available = False, ocr_engine = (\<lambda>p. OcrRaises), output_writable = True\<rparr>
       [Some ''Apollo 42\<newline>Vehicle'', None, Some ''Bus 7\<newline>Vehicle''] False 0
     = (''0042'', ''Apollo 42'')
   \<and> classify_page \<lparr>path_exists = True, path_suffix = ''.pdf'',
         reader_pages = Some [Some ''Apollo 42\<newline>Vehicle'', None, Some ''Bus 7\<newline>Vehicle''],
         ocr_available = False, ocr_engine = (\<lambda>p. OcrRaises), output_writable = True\<rparr>
       [Some ''Apollo 42\<newline>Vehicle'', None, Some ''Bus 7\<newline>Vehicle''] False 1
     = (''Unknown'', ''Unknown'')
   \<and> classify_page \<lparr>path_exists = True, path_suffix = ''.pdf'',
         reader_pages = Some [Some ''Apollo 42\<newline>Vehicle'', None, Some ''Bus 7\<newline>Vehicle''],
         ocr_available = False, ocr_engine = (\<lambda>p. OcrRaises), output_writable = True\<rparr>
       [Some ''Apollo 42\<newline>Vehicle'', None, Some ''Bus 7\<newline>Vehicle''] False 2
     = (''0007'', ''Bus 7'')
   \<and> sort_pdf_by_vehicle \<lparr>path_exists = True, path_suffix = ''.pdf'',
         reader_pages = Some [Some ''Apollo 42\<newline>Vehicle'', None, Some ''Bus 7\<newline>Vehicle''],
         ocr_available = False, ocr_engine = (\<lambda>p. OcrRaises), output_writable = True\<rparr> False
     = Inr [2, 0, 1]
   \<and> sort_pdf_by_vehicle \<lparr>path_exists = True, path_suffix = ''.pdf'',
         reader_pages = Some [Some ''x'', Some ''y'', Some ''z''],
         ocr_available = True,
         ocr_engine = (\<lambda>p. if p = 0 then OcrText ''Apollo 42\<newline>Vehicle''
                           else if p = 1 then OcrRaises
                           else OcrText ''Bus 7\<newline>Vehicle''),
         output_writable = True\<rparr> True
     = Inr [2, 0, 1]
   \<and> sort_pdf_by_vehicle \<lparr>path_exists = True, path_suffix = ''.pdf'',
         reader_pages = Some [Some ''/0/1/2/3 garbage'', Some ''y'', Some ''z''],
         ocr_available = True,
         ocr_engine = (\<lambda>p. if p = 0 then OcrText ''Apollo 42\<newline>Vehicle''
                           else if p = 1 then NoImage
                           else OcrText ''Bus 7\<newline>Vehicle''),
         output_writable = True\<rparr> False
     = Inr [2, 0, 1]"
proof (intro conjI impI)
  assume a: "path_exists doc \<and> map lower (path_suffix doc) = ''.pdf''
      \<and> reader_pages doc = Some pages \<and> output_writable doc
      \<and> (use_ocr \<or> ocr_available doc
          \<or> (\<forall>first_page_text rest. pages = Some first_page_text # rest
                \<longrightarrow> \<not> is_text_garbled first_page_text))"
  then have "\<forall>e. check_ocr doc pages use_ocr \<noteq> Inl e"
    unfolding check_ocr_Inl_iff by blast
  then obtain needs_ocr where "check_ocr doc pages use_ocr = Inr needs_ocr"
    by (cases "check_ocr doc pages use_ocr") auto
  with a have "sort_pdf_by_vehicle doc use_ocr =
      Inr (page_order (collect_pages (classify_page doc pages needs_ocr) [0..<length pages]))"
    unfolding sort_pdf_by_vehicle_Inr by blast
  then show "\<exists>out. sort_pdf_by_vehicle doc use_ocr = Inr out
                 \<and> mset out = mset [0..<length pages]"
    using page_order_mset by blast
next
  assume a: "i < length pages \<and> pages ! i = None"
  then show u: "classify_page doc pages False i = (''Unknown'', ''Unknown'')"
    by (simp add: classify_page_def)
  from a have "i \<in> set [0..<length pages]" by simp
  with u show "(i, ''Unknown'') \<in> set (pages_of
      (collect_pages (classify_page doc pages False) [0..<length pages]) ''Unknown'')"
    unfolding collect_pages_pages_of by (simp add: image_iff)
next
  assume a: "i < length pages \<and> (ocr_engine doc i = OcrRaises \<or> ocr_engine doc i = NoImage)"
  then have "extract_text_with_ocr doc i = []"
    by (intro extract_text_with_ocr_failure) simp
  then show u: "classify_page doc pages True i = (''Unknown'', ''Unknown'')"
    by (simp add: classify_page_def extract_vehicle_vin_empty)
  from a have "i \<in> set [0..<length pages]" by simp
  with u show "(i, ''Unknown'') \<in> set (pages_of
      (collect_pages (classify_page doc pages True) [0..<length pages]) ''Unknown'')"
    unfolding collect_pages_pages_of by (simp add: image_iff)
next
  show "classify_page \<lparr>path_exists = True, path_suffix = ''.pdf'',
         reader_pages = Some [Some ''Apollo 42\<newline>Vehicle'', None, Some ''Bus 7\<newline>Vehicle''],
         ocr_available = False, ocr_engine = (\<lambda>p. OcrRaises), output_writable = True\<rparr>
       [Some ''Apollo 42\<newline>Vehicle'', None, Some ''Bus 7\<newline>Vehicle''] False 0
     = (''0042'', ''Apollo 42'')"
    by code_simp
next
  show "classify_page \<lparr>path_exists = True, path_suffix = ''.pdf'',
         reader_pages = Some [Some ''Apollo 42\<newline>Vehicle'', None, Some ''Bus 7\<newline>Vehicle''],
         ocr_available = False, ocr_engine = (\<lambda>p. OcrRaises), output_writable = True\<rparr>
       [Some ''Apollo 42\<newline>Vehicle'', None, Some ''Bus 7\<newline>Vehicle''] False 1
     = (''Unknown'', ''Unknown'')"
    by code_simp
next
  show "classify_page \<lparr>path_exists = True, path_suffix = ''.pdf'',
         reader_pages = Some [Some ''Apollo 42\<newline>Vehicle'', None, Some ''Bus 7\<newline>Vehicle''],
         ocr_available = False, ocr_engine = (\<lambda>p. OcrRaises), output_writable = True\<rparr>
       [Some ''Apollo 42\<newline>Vehicle'', None, Some ''Bus 7\<newline>Vehicle''] False 2
     = (''0007'', ''Bus 7'')"
    by code_simp
next
  show "sort_pdf_by_vehicle \<lparr>path_exists = True, path_suffix = ''.pdf'',
         reader_pages = Some [Some ''Apollo 42\<newline>Vehicle'', None, Some ''Bus 7\<newline>Vehicle''],
         ocr_available = False, ocr_engine = (\<lambda>p. OcrRaises), output_writable = True\<rparr> False
     = Inr [2, 0, 1]"
    by code_simp
next
  show "sort_pdf_by_vehicle \<lparr>path_exists = True, path_suffix = ''.pdf'',
         reader_pages = Some [Some ''x'', Some ''y'', Some ''z''],
         ocr_available = True,
         ocr_engine = (\<lambda>p. if p = 0 then OcrText ''Apollo 42\<newline>Vehicle''
                           else if p = 1 then OcrRaises
                           else OcrText ''Bus 7\<newline>Vehicle''),
         output_writable = True\<rparr> True
     = Inr [2, 0, 1]"
    by code_simp
next
  show "sort_pdf_by_vehicle \<lparr>path_exists = True, path_suffix = ''.pdf'',
         reader_pages = Some [Some ''/0/1/2/3 garbage'', Some ''y'', Some ''z''],
         ocr_available = True,
         ocr_engine = (\<lambda>p. if p = 0 then OcrText ''Apollo 42\<newline>Vehicle''
                           else if p = 1 then NoImage
                           else OcrText ''Bus 7\<newline>Vehicle''),
         output_writable = True\<rparr> False
     = Inr [2, 0, 1]"
    by code_simp
qed

text \<open>
  A document of four pages of which pages 1 and 3 fail with native text, and a document
  of two pages of which page 1 fails in the OCR engine.
\<close>

theorem page_failure_is_local_witness:
  "(\<exists>out. sort_pdf_by_vehicle \<lparr>path_exists = True, path_suffix = ''.pdf'',
         reader_pages = Some [Some ''Bus 7\<newline>Vehicle'', None, Some ''a'', None],
         ocr_available = False, ocr_engine = (\<lambda>p. OcrRaises), output_writable = True\<rparr> False
       = Inr out \<and> mset out = mset [0..<4])
   \<and> [Some ''Bus 7\<newline>Vehicle'', None, Some ''a'', None] ! 3 = None
   \<and> (3, ''Unknown'') \<in> set (pages_of
         (collect_pages (classify_page \<lparr>path_exists = True, path_suffix = ''.pdf'',
              reader_pages = Some [Some ''Bus 7\<newline>Vehicle'', None, Some ''a'', None],
              ocr_available = False, ocr_engine = (\<lambda>p. OcrRaises), output_writable = True\<rparr>
            [Some ''Bus 7\<newline>Vehicle'', None, Some ''a'', None] False)
          [0..<4]) ''Unknown'')
   \<and> (\<exists>out. sort_pdf_by_vehicle \<lparr>path_exists = True, path_suffix = ''.pdf'',
         reader_pages = Some [Some ''x'', Some ''y''],
         ocr_available = True,
         ocr_engine = (\<lambda>p. if p = 0 then OcrText ''Bus 7\<newline>Vehicle'' else OcrRaises),
         output_writable = True\<rparr> True
       = Inr out \<and> mset out = mset [0..<2])
   \<and> (1, ''Unknown'') \<in> set (pages_of
         (collect_pages (classify_page \<lparr>path_exists = True, path_suffix = ''.pdf'',
              reader_pages = Some [Some ''x'', Some ''y''],
              ocr_available = True,
              ocr_engine = (\<lambda>p. if p = 0 then OcrText ''Bus 7\<newline>Vehicle'' else OcrRaises),
              output_writable = True\<rparr>
            [Some ''x'', Some ''y''] True)
          [0..<2]) ''Unknown'')"
proof -
  define pages where "pages = [Some ''Bus 7\<newline>Vehicle'', None, Some ''a'', None]"
  define doc where
    "doc = \<lparr>path_exists = True, path_suffix = ''.pdf'', reader_pages = Some pages,
       ocr_available = False, ocr_engine = (\<lambda>p. OcrRaises), output_writable = True\<rparr>"
  have len: "length pages = 4" by (simp add: pages_def)
  have pre: "path_exists doc \<and> map lower (path_suffix doc) = ''.pdf''
      \<and> reader_pages doc = Some pages \<and> output_writable doc"
    unfolding doc_def by code_simp
  have "\<not> is_text_garbled ''Bus 7\<newline>Vehicle''" by code_simp
  then have first: "\<forall>first_page_text rest. pages = Some first_page_text # rest
      \<longrightarrow> \<not> is_text_garbled first_page_text"
    by (simp add: pages_def)
  have bad: "3 < length pages \<and> pages ! 3 = None" by (simp add: pages_def)
  from page_failure_is_local[of doc pages False 3] pre first bad
  have native: "(\<exists>out. sort_pdf_by_vehicle doc False = Inr out
        \<and> mset out = mset [0..<length pages])
      \<and> (3, ''Unknown'') \<in> set (pages_of
            (collect_pages (classify_page doc pages False) [0..<length pages]) ''Unknown'')"
    by blast
  define pages2 :: "string option list" where "pages2 = [Some ''x'', Some ''y'']"
  define doc2 where
    "doc2 = \<lparr>path_exists = True, path_suffix = ''.pdf'', reader_pages = Some pages2,
       ocr_available = True,
       ocr_engine = (\<lambda>p. if p = 0 then OcrText ''Bus 7\<newline>Vehicle'' else OcrRaises),
       output_writable = True\<rparr>"
  have len2: "length pages2 = 2" by (simp add: pages2_def)
  have pre2: "path_exists doc2 \<and> map lower (path_suffix doc2) = ''.pdf''
      \<and> reader_pages doc2 = Some pages2 \<and> output_writable doc2"
    unfolding doc2_def by code_simp
  have bad2: "1 < length pages2 \<and> (ocr_engine doc2 1 = OcrRaises \<or> ocr_engine doc2 1 = NoImage)"
    by (simp add: pages2_def doc2_def)
  from page_failure_is_local[of doc2 pages2 True 1] pre2 bad2
  have ocr: "(\<exists>out. sort_pdf_by_vehicle doc2 True = Inr out
        \<and> mset out = mset [0..<length pages2])
      \<and> (1, ''Unknown'') \<in> set (pages_of
            (collect_pages (classify_page doc2 pages2 True) [0..<length pages2]) ''Unknown'')"
    by blast
  from native bad ocr show ?thesis
    unfolding len len2 unfolding doc_def doc2_def pages_def pages2_def by blast
qed

end
